theory Spec2Isabelle
  imports Main "HOL-Library.Word" "HOL-Library.Monad_Syntax" "HOL-Library.Multiset"
    "HOL-Library.Product_Lexorder"
begin

section \<open>Extremities (graph.hpp, class Extremity)\<close>

text \<open>
  The enum \<^verbatim>\<open>Extremity::Type\<close> and the value class \<^verbatim>\<open>Extremity\<close> with its two private
  fields \<^verbatim>\<open>id\<close> and \<^verbatim>\<open>t\<close>, read through \<^verbatim>\<open>getId\<close> and \<^verbatim>\<open>getType\<close>.
\<close>

datatype ExType = TAIL | HEAD | UNDEF

datatype Extremity = Extremity (getId: int) (getType: ExType)

text \<open>\<^verbatim>\<open>Extremity::operator==\<close>: same id and type, or both undefined.\<close>

definition Extremity_eq :: "Extremity \<Rightarrow> Extremity \<Rightarrow> bool" where
  "Extremity_eq a b \<longleftrightarrow>
     (getId a = getId b \<and> getType a = getType b) \<or> (getType a = UNDEF \<and> getType b = UNDEF)"

section \<open>Edge records (graph.hpp, class Edge)\<close>

text \<open>
  An \<^verbatim>\<open>Edge*\<close> is an address in the store of edge objects of a graph, or NULL (\<open>None\<close>).
  A \<^verbatim>\<open>Vertex*\<close> into a graph is the index of the slot of \<^verbatim>\<open>vertices\<close> that owns the
  object (the graph keeps \<^verbatim>\<open>vertices[id]->id == id\<close>), or NULL. The links \<^verbatim>\<open>next\<close> and
  \<^verbatim>\<open>prev\<close> of the intrusive list are represented by the order of the owning vertex's
  list of edge addresses.
\<close>

type_synonym eptr = "nat option"
type_synonym vptr = "nat option"

record Edge =
  e_adj :: vptr
  e_adjRef :: eptr
  e_label :: "string option"
  e_ex1 :: Extremity
  e_ex2 :: Extremity
  e_sibling :: eptr

type_synonym estore = "Edge option list"

text \<open>Dereferencing an edge pointer; NULL and freed or unallocated cells have no value.\<close>

definition deref :: "estore \<Rightarrow> eptr \<Rightarrow> Edge option" where
  "deref es p = (case p of None \<Rightarrow> None
                 | Some a \<Rightarrow> (if a < length es then es ! a else None))"

text \<open>\<^verbatim>\<open>Edge::incompatible\<close> (graph.cpp): only the gene ids of the extremities are compared.\<close>

definition incompatible :: "Edge \<Rightarrow> Edge \<Rightarrow> bool" where
  "incompatible this e =
     (if (getId (e_ex1 this) = getId (e_ex1 e)) \<noteq> (getId (e_ex2 this) = getId (e_ex2 e))
      then True
      else if (getId (e_ex1 this) = getId (e_ex2 e)) \<noteq> (getId (e_ex2 this) = getId (e_ex1 e))
      then True
      else False)"

text \<open>
  The predicate as the specification words it, on the endpoint-extremity pairs \<open>(a, b)\<close> and
  \<open>(c, d)\<close>, with the equality of the data model.
\<close>

definition incompatible_spec :: "Extremity \<Rightarrow> Extremity \<Rightarrow> Extremity \<Rightarrow> Extremity \<Rightarrow> bool" where
  "incompatible_spec a b c d \<longleftrightarrow>
     (Extremity_eq a c \<noteq> Extremity_eq b d) \<or> (Extremity_eq a d \<noteq> Extremity_eq b c)"

text \<open>\<^verbatim>\<open>Edge::operator==\<close>: the same record or its mirror record.\<close>

definition Edge_eq :: "estore \<Rightarrow> eptr \<Rightarrow> eptr \<Rightarrow> bool option" where
  "Edge_eq es this other =
     (if this = other then Some True
      else do { ob \<leftarrow> deref es other; Some (this = e_adjRef ob) })"

text \<open>\<^verbatim>\<open>Edge::operator<\<close>, \<^verbatim>\<open>operator<=\<close> and \<^verbatim>\<open>operator>\<close> (graph.hpp).\<close>

definition Edge_less_rec :: "Edge \<Rightarrow> Edge \<Rightarrow> bool" where
  "Edge_less_rec this other =
     (let e1 = (if getId (e_ex1 this) > getId (e_ex2 this)
                then (getId (e_ex2 this), getId (e_ex1 this))
                else (getId (e_ex1 this), getId (e_ex2 this)));
          e2 = (if getId (e_ex1 other) > getId (e_ex2 other)
                then (getId (e_ex2 other), getId (e_ex1 other))
                else (getId (e_ex1 other), getId (e_ex2 other)))
      in if getType (e_ex1 this) = UNDEF then True
         else if getType (e_ex1 other) = UNDEF then False
         else if fst e1 < fst e2 then True
         else if fst e1 > fst e2 then False
         else if snd e1 < snd e2 then True
         else if snd e1 > snd e2 then False
         else getType (e_ex1 this) = TAIL)"

definition Edge_less :: "estore \<Rightarrow> eptr \<Rightarrow> eptr \<Rightarrow> bool option" where
  "Edge_less es this other =
     (if this = other then Some True
      else do {
        ob \<leftarrow> deref es other;
        if this = e_adjRef ob then Some True
        else do { t \<leftarrow> deref es this; Some (Edge_less_rec t ob) } })"

definition Edge_le :: "estore \<Rightarrow> eptr \<Rightarrow> eptr \<Rightarrow> bool option" where
  "Edge_le es this other =
     (if this = other then Some True
      else do {
        ob \<leftarrow> deref es other;
        if this = e_adjRef ob then Some True else Edge_less es this other })"

definition Edge_greater :: "estore \<Rightarrow> eptr \<Rightarrow> eptr \<Rightarrow> bool option" where
  "Edge_greater es this other = map_option Not (Edge_le es this other)"

section \<open>Paths (paths-cycles.hpp, paths-cycles.cpp, class Path)\<close>

text \<open>
  The two vectors are kept with their whole allocated size, the cells beyond \<^verbatim>\<open>l\<close> and
  \<^verbatim>\<open>le\<close> included; \<^verbatim>\<open>l\<close> and \<^verbatim>\<open>le\<close> are the C \<^verbatim>\<open>int\<close> counters.
\<close>

record Path =
  p_l :: int
  p_le :: int
  p_v :: "vptr list"
  p_e :: "eptr list"

text \<open>Reading \<^verbatim>\<open>vec[i]\<close>: an index outside the vector has no value.\<close>

definition vec_at :: "'a list \<Rightarrow> int \<Rightarrow> 'a option" where
  "vec_at xs i = (if 0 \<le> i \<and> i < int (length xs) then Some (xs ! nat i) else None)"

text \<open>The value of \<^verbatim>\<open>(unsigned) i\<close> for a 32-bit \<^verbatim>\<open>int\<close>.\<close>

definition unsigned :: "int \<Rightarrow> nat" where
  "unsigned i = nat (i mod 2 ^ 32)"

definition INITIAL_CAPACITY :: nat where
  "INITIAL_CAPACITY = 4"

definition Path_empty :: Path where
  "Path_empty = \<lparr>p_l = 0, p_le = 0,
                 p_v = replicate INITIAL_CAPACITY None, p_e = replicate INITIAL_CAPACITY None\<rparr>"

definition addVertex_p :: "Path \<Rightarrow> vptr \<Rightarrow> Path option" where
  "addVertex_p p x =
     (let vs = (if unsigned (p_l p) = length (p_v p)
                then p_v p @ replicate (length (p_v p) * 2 - length (p_v p)) None
                else p_v p)
      in if 0 \<le> p_l p \<and> p_l p < int (length vs)
         then Some (p\<lparr>p_v := vs[nat (p_l p) := x], p_l := p_l p + 1\<rparr>)
         else None)"

definition removeVertex_p :: "Path \<Rightarrow> Path" where
  "removeVertex_p p =
     (let vs = (if unsigned (p_l p) < length (p_v p) div 2
                then take (length (p_v p) div 2) (p_v p)
                else p_v p)
      in p\<lparr>p_v := vs, p_l := p_l p - 1\<rparr>)"

definition addEdge_p :: "Path \<Rightarrow> eptr \<Rightarrow> Path option" where
  "addEdge_p p x =
     (let es = (if unsigned (p_le p) = length (p_e p)
                then p_e p @ replicate (length (p_e p) * 2 - length (p_e p)) None
                else p_e p)
      in if 0 \<le> p_le p \<and> p_le p < int (length es)
         then Some (p\<lparr>p_e := es[nat (p_le p) := x], p_le := p_le p + 1\<rparr>)
         else None)"

definition removeEdge_p :: "Path \<Rightarrow> Path" where
  "removeEdge_p p =
     (let es = (if unsigned (p_le p) < length (p_e p) div 2
                then take (length (p_e p) div 2) (p_e p)
                else p_e p)
      in p\<lparr>p_e := es, p_le := p_le p - 1\<rparr>)"

text \<open>\<^verbatim>\<open>Path::Path(Vertex *v)\<close>.\<close>

definition Path_of :: "vptr \<Rightarrow> Path option" where
  "Path_of x = addVertex_p Path_empty x"

definition len :: "Path \<Rightarrow> int" where
  "len p = p_l p"

definition lenE :: "Path \<Rightarrow> int" where
  "lenE p = p_le p"

definition first :: "Path \<Rightarrow> vptr option" where
  "first p = vec_at (p_v p) 0"

definition last_p :: "Path \<Rightarrow> vptr option" where
  "last_p p = vec_at (p_v p) (p_l p - 1)"

definition nthE :: "Path \<Rightarrow> int \<Rightarrow> eptr option" where
  "nthE p i = vec_at (p_e p) i"

definition firstE :: "Path \<Rightarrow> eptr option" where
  "firstE p = vec_at (p_e p) 0"

definition lastE :: "Path \<Rightarrow> eptr option" where
  "lastE p = vec_at (p_e p) (p_le p - 1)"

text \<open>
  \<^verbatim>\<open>Path::getVertices\<close> and \<^verbatim>\<open>Path::getEdges\<close>: a copy of the vector, resized to the
  counter (a negative counter converts to a size beyond \<^verbatim>\<open>max_size\<close>, and \<^verbatim>\<open>resize\<close> throws).
\<close>

definition resize :: "'a list \<Rightarrow> nat \<Rightarrow> 'a \<Rightarrow> 'a list" where
  "resize xs k d = take k xs @ replicate (k - length xs) d"

definition getVertices :: "Path \<Rightarrow> vptr list option" where
  "getVertices p = (if p_l p < 0 then None else Some (resize (p_v p) (nat (p_l p)) None))"

definition getEdges :: "Path \<Rightarrow> eptr list option" where
  "getEdges p = (if p_le p < 0 then None else Some (resize (p_e p) (nat (p_le p)) None))"

text \<open>\<^verbatim>\<open>Path::isCycle(void)\<close>, with the short-circuit evaluation of \<^verbatim>\<open>&&\<close>.\<close>

definition isCycle :: "estore \<Rightarrow> Path \<Rightarrow> bool option" where
  "isCycle es p =
     do {
       c1 \<leftarrow> (if len p > 1 \<and> len p = lenE p + 1
              then do { f \<leftarrow> first p; la \<leftarrow> last_p p; Some (f = la) }
              else Some False);
       if c1 then Some True
       else if lenE p > 1 \<and> len p = lenE p
         then do { le \<leftarrow> lastE p; ed \<leftarrow> deref es le; f \<leftarrow> first p; Some (e_adj ed = f) }
         else Some False
     }"

text \<open>\<^verbatim>\<open>Path::isCycle(Edge *e)\<close>.\<close>

definition isCycle_e :: "estore \<Rightarrow> Path \<Rightarrow> eptr \<Rightarrow> bool option" where
  "isCycle_e es p e =
     (if len p = lenE p + 1
      then do { ed \<leftarrow> deref es e; f \<leftarrow> first p; Some (e_adj ed = f) }
      else Some False)"

text \<open>
  The predicate \<^verbatim>\<open>isCycle\<close> as the specification words it: the two closing conditions alone.
\<close>

definition isCycle_spec :: "estore \<Rightarrow> Path \<Rightarrow> bool" where
  "isCycle_spec es p \<longleftrightarrow>
     (len p = lenE p + 1 \<and> first p = last_p p)
     \<or> (len p = lenE p \<and> (\<exists>le ed f. lastE p = Some le \<and> deref es le = Some ed
                              \<and> first p = Some f \<and> e_adj ed = f))"

text \<open>\<^verbatim>\<open>Path::inPath(Edge *e)\<close>: the loop over \<^verbatim>\<open>i < le\<close>, leaving at the first hit.\<close>

fun inPath_loop :: "estore \<Rightarrow> Path \<Rightarrow> eptr \<Rightarrow> nat list \<Rightarrow> bool option" where
  "inPath_loop es p e [] = Some False"
| "inPath_loop es p e (i # is) =
     do {
       ei \<leftarrow> vec_at (p_e p) (int i);
       if ei = e then Some True
       else do {
         ed \<leftarrow> deref es e;
         if ei = e_adjRef ed then Some True else inPath_loop es p e is
       }
     }"

definition inPath :: "estore \<Rightarrow> Path \<Rightarrow> eptr \<Rightarrow> bool option" where
  "inPath es p e = inPath_loop es p e [0..<nat (p_le p)]"

text \<open>
  \<^verbatim>\<open>Path::consistent(void)\<close>: for each \<^verbatim>\<open>i\<close>, the inner loop over every \<^verbatim>\<open>j < le\<close>; the
  pair is tested when \<^verbatim>\<open>j > i\<close>, and the first offending pair ends both loops.
\<close>

fun consistent_inner :: "estore \<Rightarrow> Path \<Rightarrow> nat \<Rightarrow> nat list \<Rightarrow> bool option" where
  "consistent_inner es p i [] = Some True"
| "consistent_inner es p i (j # js) =
     do {
       bad \<leftarrow> (if j > i
               then do {
                 ei \<leftarrow> vec_at (p_e p) (int i);
                 ej \<leftarrow> vec_at (p_e p) (int j);
                 x \<leftarrow> deref es ei;
                 y \<leftarrow> deref es ej;
                 if incompatible x y then Some True else Edge_eq es ei ej
               }
               else Some False);
       if bad then Some False else consistent_inner es p i js
     }"

fun consistent_outer :: "estore \<Rightarrow> Path \<Rightarrow> nat list \<Rightarrow> bool option" where
  "consistent_outer es p [] = Some True"
| "consistent_outer es p (i # is) =
     do {
       ok \<leftarrow> consistent_inner es p i [0..<nat (p_le p)];
       if ok then consistent_outer es p is else Some False
     }"

definition consistent :: "estore \<Rightarrow> Path \<Rightarrow> bool option" where
  "consistent es p = consistent_outer es p [0..<nat (p_le p)]"

text \<open>
  \<^verbatim>\<open>Path::consistent(Edge *edge)\<close>: the result and the path object as the call leaves it.
\<close>

definition consistent_e :: "estore \<Rightarrow> Path \<Rightarrow> eptr \<Rightarrow> (bool \<times> Path) option" where
  "consistent_e es p edge =
     do {
       present \<leftarrow> inPath es p edge;
       if present then Some (False, p)
       else do {
         p1 \<leftarrow> addEdge_p p edge;
         ed \<leftarrow> deref es edge;
         p2 \<leftarrow> addVertex_p p1 (e_adj ed);
         result \<leftarrow> consistent es p2;
         Some (result, removeVertex_p (removeEdge_p p2))
       }
     }"

text \<open>
  A path object in a state the class keeps: counters within the vectors and within the
  range of \<^verbatim>\<open>int\<close>, vectors never empty, and every listed edge pointer pointing to a live
  edge record.
\<close>

definition Path_wf :: "estore \<Rightarrow> Path \<Rightarrow> bool" where
  "Path_wf es p \<longleftrightarrow>
     0 \<le> p_l p \<and> p_l p \<le> int (length (p_v p)) \<and> 0 < length (p_v p) \<and> p_l p < 2 ^ 31 - 1
     \<and> 0 \<le> p_le p \<and> p_le p \<le> int (length (p_e p)) \<and> 0 < length (p_e p) \<and> p_le p < 2 ^ 31 - 1
     \<and> (\<forall>i < nat (p_le p). deref es (p_e p ! i) \<noteq> None)"

section \<open>Sample data\<close>

text \<open>
  Two parallel logical edges between the vertices 0 and 1, each as its two mirror records
  (addresses 0, 1 and 2, 3), and the path that leaves vertex 0 by the first of them.
\<close>

definition sample_store :: estore where
  "sample_store =
     [Some \<lparr>e_adj = Some 1, e_adjRef = Some 1, e_label = Some ''a'',
            e_ex1 = Extremity 1 TAIL, e_ex2 = Extremity 2 TAIL, e_sibling = None\<rparr>,
      Some \<lparr>e_adj = Some 0, e_adjRef = Some 0, e_label = Some ''a'',
            e_ex1 = Extremity 2 TAIL, e_ex2 = Extremity 1 TAIL, e_sibling = None\<rparr>,
      Some \<lparr>e_adj = Some 0, e_adjRef = Some 3, e_label = Some ''b'',
            e_ex1 = Extremity 2 HEAD, e_ex2 = Extremity 1 HEAD, e_sibling = None\<rparr>,
      Some \<lparr>e_adj = Some 1, e_adjRef = Some 2, e_label = Some ''b'',
            e_ex1 = Extremity 1 HEAD, e_ex2 = Extremity 2 HEAD, e_sibling = None\<rparr>]"

definition sample_path :: Path where
  "sample_path = \<lparr>p_l = 2, p_le = 1, p_v = [Some 0, Some 1, None, None],
                   p_e = [Some 0, None, None, None]\<rparr>"

definition sample_cycle :: Path where
  "sample_cycle = \<lparr>p_l = 2, p_le = 2, p_v = [Some 0, Some 1, None, None],
                    p_e = [Some 0, Some 2, None, None]\<rparr>"

definition single_vertex_path :: Path where
  "single_vertex_path = \<lparr>p_l = 1, p_le = 0, p_v = [Some 0, None, None, None],
                          p_e = [None, None, None, None]\<rparr>"


section \<open>Vertices and graphs (graph.hpp, graph.cpp, classes Vertex and Graph)\<close>

text \<open>
  The fields keep their C types: \<^verbatim>\<open>unsigned short\<close> is a 16-bit word, \<^verbatim>\<open>char\<close> and
  \<^verbatim>\<open>unsigned char\<close> are 8-bit words (a \<^verbatim>\<open>char\<close> is read as signed), \<^verbatim>\<open>unsigned int\<close> is a
  32-bit word, \<^verbatim>\<open>int\<close> is an integer. The list \<open>v_edges\<close> holds the addresses of the
  vertex's edge records in the order of the linked list behind its head, the most recently
  added first. The satellite pointer \<^verbatim>\<open>data\<close> holds nothing or a path.
\<close>

record Vertex =
  v_id :: int
  v_degree :: "16 word"
  v_direction :: "8 word"
  v_part :: "8 word"
  v_family :: "16 word"
  v_label :: "string option"
  v_edges :: "nat list"
  v_data :: "Path option"
  v_ex1 :: Extremity
  v_ex2 :: Extremity

text \<open>
  The graph owns the vertex objects through the vector \<^verbatim>\<open>vertices\<close> (a NULL slot is
  \<open>None\<close>) and the edge records of its vertices through the store \<open>g_edges\<close>, where a
  deleted record leaves an empty cell and \<^verbatim>\<open>new Edge\<close> takes the next fresh address.
\<close>

record Graph =
  g_n :: int
  g_maxn :: int
  g_m :: int
  g_lastVid :: int
  g_vertices :: "Vertex option list"
  g_label :: "string option"
  g_npart :: "int list"
  g_fsize :: "int list"
  g_fname :: "string option list"
  g_edges :: estore

definition GRAPH_MAX_LABEL :: nat where
  "GRAPH_MAX_LABEL = 100"

text \<open>
  The copy every \<^verbatim>\<open>setLabel\<close> and \<^verbatim>\<open>addVertex\<close> makes of a label:
  \<^verbatim>\<open>strnlen(label, _GRAPH_MAX_LABEL) + 1\<close> bytes of it (for a longer label these are 101
  characters with no terminator behind them).
\<close>

definition label_copy :: "string option \<Rightarrow> string option" where
  "label_copy label = map_option (\<lambda>s. take (min (length s) GRAPH_MAX_LABEL + 1) s) label"

text \<open>\<^verbatim>\<open>strncmp(a, b, n) == 0\<close> on two strings.\<close>

definition strncmp_eq :: "string \<Rightarrow> string \<Rightarrow> nat \<Rightarrow> bool" where
  "strncmp_eq a b k \<longleftrightarrow> take k a = take k b"

text \<open>Dereferencing a vertex pointer of a graph.\<close>

definition vderef :: "Graph \<Rightarrow> vptr \<Rightarrow> Vertex option" where
  "vderef g p = (case p of None \<Rightarrow> None
                 | Some k \<Rightarrow> (if k < length (g_vertices g) then g_vertices g ! k else None))"

definition vstore :: "Graph \<Rightarrow> nat \<Rightarrow> Vertex \<Rightarrow> Graph" where
  "vstore g k v = g\<lparr>g_vertices := (g_vertices g)[k := Some v]\<rparr>"

definition estore_upd :: "Graph \<Rightarrow> nat \<Rightarrow> Edge \<Rightarrow> Graph" where
  "estore_upd g a e = g\<lparr>g_edges := (g_edges g)[a := Some e]\<rparr>"

text \<open>\<^verbatim>\<open>Graph::Graph(const char *label, int maxvertices)\<close>; a negative size cannot be allocated.\<close>

definition Graph_new :: "string option \<Rightarrow> int \<Rightarrow> Graph option" where
  "Graph_new label maxvertices =
     (if maxvertices < 0 then None
      else Some \<lparr>g_n = 0,
                 g_maxn = (if maxvertices < 1 then 128 else maxvertices),
                 g_m = 0,
                 g_lastVid = - 1,
                 g_vertices = (if maxvertices < 1
                               then resize (replicate (nat maxvertices) None) 128 None
                               else replicate (nat maxvertices) None),
                 g_label = label_copy label,
                 g_npart = replicate 128 0,
                 g_fsize = replicate 128 0,
                 g_fname = replicate 128 None,
                 g_edges = []\<rparr>)"

definition getN :: "Graph \<Rightarrow> int" where
  "getN g = g_n g"


text \<open>
  \<^verbatim>\<open>Graph::getVertex(int id)\<close>: the unchecked read \<^verbatim>\<open>vertices[id]\<close>. The outer \<open>None\<close> is the
  read outside the vector; \<open>Some None\<close> is the NULL result.
\<close>

definition getVertex :: "Graph \<Rightarrow> int \<Rightarrow> vptr option" where
  "getVertex g i =
     map_option (\<lambda>cell. case cell of None \<Rightarrow> None | Some v \<Rightarrow> Some (nat i))
       (vec_at (g_vertices g) i)"

text \<open>\<^verbatim>\<open>Graph::getVertex(char label[])\<close>: the scan of the slots \<^verbatim>\<open>0 .. lastVid\<close>.\<close>

fun getVertex_label_loop :: "Graph \<Rightarrow> string \<Rightarrow> nat list \<Rightarrow> vptr option" where
  "getVertex_label_loop g label [] = Some None"
| "getVertex_label_loop g label (i # is) =
     do {
       cell \<leftarrow> vec_at (g_vertices g) (int i);
       case cell of
         None \<Rightarrow> getVertex_label_loop g label is
       | Some v \<Rightarrow> do {
           vl \<leftarrow> v_label v;
           if strncmp_eq vl label GRAPH_MAX_LABEL then Some (Some i)
           else getVertex_label_loop g label is
         }
     }"

definition getVertex_label :: "Graph \<Rightarrow> string \<Rightarrow> vptr option" where
  "getVertex_label g label = getVertex_label_loop g label [0..<nat (g_lastVid g + 1)]"

text \<open>\<^verbatim>\<open>Vertex::addEdge\<close>: a new record at the front of the list of the vertex in slot \<open>k\<close>.\<close>

definition Vertex_addEdge :: "Graph \<Rightarrow> nat \<Rightarrow> vptr \<Rightarrow> string option \<Rightarrow> (nat \<times> Graph) option" where
  "Vertex_addEdge g k adj label =
     do {
       v \<leftarrow> vderef g (Some k);
       let a = length (g_edges g);
       let e = \<lparr>e_adj = adj, e_adjRef = None, e_label = label_copy label,
                e_ex1 = Extremity 0 UNDEF, e_ex2 = Extremity 0 UNDEF, e_sibling = None\<rparr>;
       Some (a, (vstore g k (v\<lparr>v_edges := a # v_edges v, v_degree := v_degree v + 1\<rparr>))
                  \<lparr>g_edges := g_edges g @ [Some e]\<rparr>)
     }"

text \<open>\<^verbatim>\<open>Vertex::removeEdge\<close>: unlink the record, delete it, one less in the degree.\<close>

definition Vertex_removeEdge :: "Graph \<Rightarrow> vptr \<Rightarrow> eptr \<Rightarrow> Graph option" where
  "Vertex_removeEdge g vp ep =
     (case (vp, ep) of
        (Some k, Some a) \<Rightarrow> do {
          _ \<leftarrow> deref (g_edges g) ep;
          v \<leftarrow> vderef g vp;
          Some ((vstore g k (v\<lparr>v_edges := remove1 a (v_edges v), v_degree := v_degree v - 1\<rparr>))
                  \<lparr>g_edges := (g_edges g)[a := None]\<rparr>)
        }
      | _ \<Rightarrow> None)"

text \<open>\<^verbatim>\<open>Graph::addEdge(Vertex *v1, Vertex *v2, const char *label)\<close>.\<close>

definition addEdge :: "Graph \<Rightarrow> vptr \<Rightarrow> vptr \<Rightarrow> string option \<Rightarrow> (eptr \<times> Graph) option" where
  "addEdge g v1 v2 label =
     (case (v1, v2) of
        (Some k1, Some k2) \<Rightarrow>
          (if v1 = v2 then Some (None, g)
           else do {
             (e1, g1) \<leftarrow> Vertex_addEdge (g\<lparr>g_m := g_m g + 1\<rparr>) k1 v2 label;
             (e2, g2) \<leftarrow> Vertex_addEdge g1 k2 v1 label;
             r1 \<leftarrow> deref (g_edges g2) (Some e1);
             let g3 = estore_upd g2 e1 (r1\<lparr>e_adjRef := Some e2\<rparr>);
             r2 \<leftarrow> deref (g_edges g3) (Some e2);
             Some (Some e1, estore_upd g3 e2 (r2\<lparr>e_adjRef := Some e1\<rparr>))
           })
      | _ \<Rightarrow> Some (None, g))"

text \<open>\<^verbatim>\<open>Graph::addEdge(int id1, int id2, const char *label)\<close>, with its guard as written.\<close>

definition addEdge_id :: "Graph \<Rightarrow> int \<Rightarrow> int \<Rightarrow> string option \<Rightarrow> (eptr \<times> Graph) option" where
  "addEdge_id g id1 id2 label =
     (if id1 \<ge> g_maxn g \<or> id2 > g_maxn g then Some (None, g)
      else do {
        v1 \<leftarrow> getVertex g id1;
        v2 \<leftarrow> getVertex g id2;
        addEdge g v1 v2 label
      })"


text \<open>
  The loop \<^verbatim>\<open>while (id >= maxn) maxn *= 2\<close> of \<^verbatim>\<open>addVertex\<close>. It has no result when the
  doubling leaves the range of \<^verbatim>\<open>int\<close> or when \<^verbatim>\<open>maxn\<close> is not positive.
\<close>

function grow_maxn :: "int \<Rightarrow> int \<Rightarrow> int option" where
  "grow_maxn i mx =
     (if i \<ge> mx
      then (if mx \<le> 0 \<or> mx * 2 \<ge> 2 ^ 31 then None else grow_maxn i (mx * 2))
      else Some mx)"
  by pat_completeness auto
termination
  by (relation "measure (\<lambda>(i, mx). nat (2 ^ 31 - mx))") auto

declare grow_maxn.simps [simp del]

text \<open>
  The loop \<^verbatim>\<open>while (family >= fsize.size()) fsize.resize(fsize.size() * 2)\<close>: the size
  reached (none from an empty vector, where the loop does not end).
\<close>

function grow_size :: "nat \<Rightarrow> nat \<Rightarrow> nat option" where
  "grow_size fam sz =
     (if fam \<ge> sz then (if sz = 0 then None else grow_size fam (sz * 2)) else Some sz)"
  by pat_completeness auto
termination
  by (relation "measure (\<lambda>(fam, sz). fam + 1 - sz)") auto

declare grow_size.simps [simp del]

text \<open>\<^verbatim>\<open>Vertex::Vertex(int id)\<close> with the default direction and family.\<close>

definition Vertex_new :: "int \<Rightarrow> Vertex" where
  "Vertex_new i = \<lparr>v_id = i, v_degree = 0, v_direction = 0, v_part = 0, v_family = 0,
                   v_label = None, v_edges = [], v_data = None,
                   v_ex1 = Extremity 0 UNDEF, v_ex2 = Extremity 0 UNDEF\<rparr>"

text \<open>
  \<^verbatim>\<open>Graph::addVertex(int id, const char *label, char part, unsigned int family)\<close>: the new
  vertex pointer (NULL when the slot is taken) and the graph.
\<close>

definition addVertex_id ::
  "Graph \<Rightarrow> int \<Rightarrow> string option \<Rightarrow> 8 word \<Rightarrow> 32 word \<Rightarrow> (vptr \<times> Graph) option" where
  "addVertex_id g i label part0 family =
     (let part = (if sint part0 < 0 then 0 else part0) in
      do {
        mx \<leftarrow> (if i \<ge> g_maxn g then grow_maxn i (g_maxn g) else Some (g_maxn g));
        let vs = (if i \<ge> g_maxn g then resize (g_vertices g) (nat mx) None else g_vertices g);
        cell \<leftarrow> vec_at vs i;
        case cell of
          Some _ \<Rightarrow> Some (None, g\<lparr>g_maxn := mx, g_vertices := vs\<rparr>)
        | None \<Rightarrow> do {
            sz \<leftarrow> grow_size (unat family) (length (g_fsize g));
            let fs = resize (g_fsize g) sz 0;
            let v = (Vertex_new i)\<lparr>v_part := part, v_family := ucast family,
                                   v_label := label_copy label\<rparr>;
            Some (Some (nat i),
                  g\<lparr>g_maxn := mx,
                    g_fsize := fs[unat family := fs ! unat family + 1],
                    g_lastVid := (if i > g_lastVid g then i else g_lastVid g),
                    g_n := g_n g + 1,
                    g_npart := (g_npart g)[unat part := g_npart g ! unat part + 1],
                    g_vertices := vs[nat i := Some v]\<rparr>)
          }
      })"

text \<open>
  The search \<^verbatim>\<open>for (id = 0; id < maxn && vertices[id] != NULL; id++)\<close>, from index \<open>i\<close> with
  \<open>r\<close> indices left below \<^verbatim>\<open>maxn\<close>.
\<close>

fun scan_free :: "Vertex option list \<Rightarrow> nat \<Rightarrow> nat \<Rightarrow> int option" where
  "scan_free vs i 0 = Some (int i)"
| "scan_free vs i (Suc r) =
     do {
       cell \<leftarrow> vec_at vs (int i);
       if cell \<noteq> None then scan_free vs (Suc i) r else Some (int i)
     }"

text \<open>\<^verbatim>\<open>Graph::addVertex(const char *label, char part, unsigned int family)\<close>.\<close>

definition addVertex ::
  "Graph \<Rightarrow> string option \<Rightarrow> 8 word \<Rightarrow> 32 word \<Rightarrow> (vptr \<times> Graph) option" where
  "addVertex g label part family =
     do {
       i \<leftarrow> (if g_lastVid g < g_maxn g - 1 then Some (g_lastVid g + 1)
             else scan_free (g_vertices g) 0 (nat (g_maxn g)));
       addVertex_id g i label part family
     }"

text \<open>\<^verbatim>\<open>Edge::setSibling\<close>: \<^verbatim>\<open>sibling = adjRef->sibling = e\<close>.\<close>

definition Edge_setSibling :: "Graph \<Rightarrow> eptr \<Rightarrow> eptr \<Rightarrow> Graph option" where
  "Edge_setSibling g this e =
     (case this of
        None \<Rightarrow> None
      | Some a \<Rightarrow> do {
          t \<leftarrow> deref (g_edges g) this;
          case e_adjRef t of
            None \<Rightarrow> None
          | Some b \<Rightarrow> do {
              r \<leftarrow> deref (g_edges g) (Some b);
              let g1 = estore_upd g b (r\<lparr>e_sibling := e\<rparr>);
              t1 \<leftarrow> deref (g_edges g1) this;
              Some (estore_upd g1 a (t1\<lparr>e_sibling := e\<rparr>))
            }
        })"

text \<open>\<^verbatim>\<open>Graph::removeEdge(Edge *e)\<close>.\<close>

definition removeEdge :: "Graph \<Rightarrow> eptr \<Rightarrow> Graph option" where
  "removeEdge g e =
     (case e of
        None \<Rightarrow> Some g
      | Some a \<Rightarrow> do {
          r1 \<leftarrow> deref (g_edges g) e;
          let e2 = e_adjRef r1;
          r2 \<leftarrow> deref (g_edges g) e2;
          let v1 = e_adj r2;
          let v2 = e_adj r1;
          g1 \<leftarrow> (case e_sibling r1 of
                   None \<Rightarrow> Some g
                 | Some s \<Rightarrow> Edge_setSibling g (Some s) None);
          g2 \<leftarrow> Vertex_removeEdge g1 v1 e;
          g3 \<leftarrow> Vertex_removeEdge g2 v2 e2;
          Some (g3\<lparr>g_m := g_m g3 - 1\<rparr>)
        })"

text \<open>
  The loop \<^verbatim>\<open>while (v->edges->next != NULL) removeEdge(v->edges->next)\<close> of
  \<^verbatim>\<open>Graph::removeVertex\<close>, for the vertex in slot \<open>k\<close>.
\<close>

partial_function (option) removeVertex_loop :: "Graph \<Rightarrow> nat \<Rightarrow> Graph option" where
  "removeVertex_loop g k =
     do {
       v \<leftarrow> vderef g (Some k);
       case v_edges v of
         [] \<Rightarrow> Some g
       | a # _ \<Rightarrow> do { g' \<leftarrow> removeEdge g (Some a); removeVertex_loop g' k }
     }"

text \<open>\<^verbatim>\<open>Graph::removeVertex(Vertex *v)\<close>.\<close>

definition removeVertex :: "Graph \<Rightarrow> vptr \<Rightarrow> Graph option" where
  "removeVertex g vp =
     (case vp of
        None \<Rightarrow> Some g
      | Some k \<Rightarrow> do {
          g1 \<leftarrow> removeVertex_loop g k;
          v \<leftarrow> vderef g1 vp;
          _ \<leftarrow> vec_at (g_vertices g1) (v_id v);
          _ \<leftarrow> vec_at (g_npart g1) (int (unat (v_part v)));
          _ \<leftarrow> vec_at (g_fsize g1) (int (unat (v_family v)));
          Some (g1\<lparr>g_vertices := (g_vertices g1)[nat (v_id v) := None],
                   g_npart := (g_npart g1)[unat (v_part v) := g_npart g1 ! unat (v_part v) - 1],
                   g_fsize := (g_fsize g1)[unat (v_family v) :=
                                             g_fsize g1 ! unat (v_family v) - 1],
                   g_n := g_n g1 - 1\<rparr>)
        })"

text \<open>\<^verbatim>\<open>Graph::removeVertex(int id)\<close>.\<close>

definition removeVertex_id :: "Graph \<Rightarrow> int \<Rightarrow> Graph option" where
  "removeVertex_id g i = do { vp \<leftarrow> getVertex g i; removeVertex g vp }"

text \<open>\<^verbatim>\<open>Graph::partSize(char part)\<close>; the array \<^verbatim>\<open>npart\<close> has 128 cells.\<close>

definition partSize :: "Graph \<Rightarrow> 8 word \<Rightarrow> int" where
  "partSize g part = (if sint part < 0 \<or> sint part > 127 then 0 else g_npart g ! unat part)"

text \<open>
  The setters of a vertex, applied to the vertex object a pointer designates:
  \<^verbatim>\<open>Vertex::setPart\<close>, \<^verbatim>\<open>Vertex::setDirection\<close>, \<^verbatim>\<open>Vertex::setData\<close>,
  \<^verbatim>\<open>Vertex::setExtremities\<close>.
\<close>

definition Vertex_setPart :: "Graph \<Rightarrow> vptr \<Rightarrow> 8 word \<Rightarrow> Graph option" where
  "Vertex_setPart g vp part =
     (case vp of None \<Rightarrow> None
      | Some k \<Rightarrow> do { v \<leftarrow> vderef g vp; Some (vstore g k (v\<lparr>v_part := part\<rparr>)) })"

definition Vertex_setDirection :: "Graph \<Rightarrow> vptr \<Rightarrow> 8 word \<Rightarrow> Graph option" where
  "Vertex_setDirection g vp d =
     (case vp of None \<Rightarrow> None
      | Some k \<Rightarrow> do { v \<leftarrow> vderef g vp; Some (vstore g k (v\<lparr>v_direction := d\<rparr>)) })"

definition Vertex_setData :: "Graph \<Rightarrow> vptr \<Rightarrow> Path option \<Rightarrow> Graph option" where
  "Vertex_setData g vp d =
     (case vp of None \<Rightarrow> None
      | Some k \<Rightarrow> do { v \<leftarrow> vderef g vp; Some (vstore g k (v\<lparr>v_data := d\<rparr>)) })"

definition Vertex_setExtremities ::
  "Graph \<Rightarrow> vptr \<Rightarrow> int \<Rightarrow> ExType \<Rightarrow> int \<Rightarrow> ExType \<Rightarrow> Graph option" where
  "Vertex_setExtremities g vp id1 t1 id2 t2 =
     (case vp of None \<Rightarrow> None
      | Some k \<Rightarrow> do {
          v \<leftarrow> vderef g vp;
          Some (vstore g k (v\<lparr>v_ex1 := Extremity id1 t1, v_ex2 := Extremity id2 t2\<rparr>))
        })"

text \<open>
  \<^verbatim>\<open>Edge::setExtremities\<close>: the four chained assignments, each writing the mirror record
  first and this record second.
\<close>

definition eupd :: "Graph \<Rightarrow> eptr \<Rightarrow> (Edge \<Rightarrow> Edge) \<Rightarrow> Graph option" where
  "eupd g p f =
     (case p of None \<Rightarrow> None
      | Some a \<Rightarrow> do { r \<leftarrow> deref (g_edges g) p; Some (estore_upd g a (f r)) })"

definition Edge_setExtremities ::
  "Graph \<Rightarrow> eptr \<Rightarrow> int \<Rightarrow> ExType \<Rightarrow> int \<Rightarrow> ExType \<Rightarrow> Graph option" where
  "Edge_setExtremities g this id1 t1 id2 t2 =
     do {
       t \<leftarrow> deref (g_edges g) this;
       let m = e_adjRef t;
       g \<leftarrow> eupd g m (\<lambda>r. r\<lparr>e_ex2 := Extremity id1 (getType (e_ex2 r))\<rparr>);
       g \<leftarrow> eupd g this (\<lambda>r. r\<lparr>e_ex1 := Extremity id1 (getType (e_ex1 r))\<rparr>);
       g \<leftarrow> eupd g m (\<lambda>r. r\<lparr>e_ex2 := Extremity (getId (e_ex2 r)) t1\<rparr>);
       g \<leftarrow> eupd g this (\<lambda>r. r\<lparr>e_ex1 := Extremity (getId (e_ex1 r)) t1\<rparr>);
       g \<leftarrow> eupd g m (\<lambda>r. r\<lparr>e_ex1 := Extremity id2 (getType (e_ex1 r))\<rparr>);
       g \<leftarrow> eupd g this (\<lambda>r. r\<lparr>e_ex2 := Extremity id2 (getType (e_ex2 r))\<rparr>);
       g \<leftarrow> eupd g m (\<lambda>r. r\<lparr>e_ex1 := Extremity (getId (e_ex1 r)) t2\<rparr>);
       eupd g this (\<lambda>r. r\<lparr>e_ex2 := Extremity (getId (e_ex2 r)) t2\<rparr>)
     }"


section \<open>Well-formed graphs\<close>

text \<open>
  The state the mutators of \<^verbatim>\<open>Graph\<close> keep. An address is a live edge when some vertex
  lists it. A listed record has its mirror record listed at the other endpoint, the two
  point at each other and at each other's owner, the endpoints differ, both carry the same
  sibling pointer, and a sibling is a live record whose own sibling is this edge.
\<close>

definition live_edge :: "Graph \<Rightarrow> nat \<Rightarrow> bool" where
  "live_edge g a \<longleftrightarrow>
     (\<exists>k < length (g_vertices g). \<exists>v. g_vertices g ! k = Some v \<and> a \<in> set (v_edges v))"

definition edge_ok :: "Graph \<Rightarrow> nat \<Rightarrow> nat \<Rightarrow> bool" where
  "edge_ok g k a \<longleftrightarrow>
     (\<exists>e b r k' w.
        deref (g_edges g) (Some a) = Some e \<and> e_adjRef e = Some b
        \<and> deref (g_edges g) (Some b) = Some r \<and> e_adjRef r = Some a
        \<and> e_adj r = Some k \<and> e_adj e = Some k' \<and> k' \<noteq> k
        \<and> vderef g (Some k') = Some w \<and> b \<in> set (v_edges w)
        \<and> e_sibling r = e_sibling e
        \<and> (\<forall>s. e_sibling e = Some s \<longrightarrow>
              (\<exists>se. deref (g_edges g) (Some s) = Some se \<and> live_edge g s
                    \<and> (e_sibling se = Some a \<or> e_sibling se = Some b))))"

definition Graph_wf :: "Graph \<Rightarrow> bool" where
  "Graph_wf g \<longleftrightarrow>
     0 < g_maxn g \<and> g_maxn g < 2 ^ 31 \<and> length (g_vertices g) = nat (g_maxn g)
     \<and> length (g_npart g) = 128 \<and> 0 < length (g_fsize g)
     \<and> - 1 \<le> g_lastVid g \<and> g_lastVid g < g_maxn g
     \<and> (\<forall>k < length (g_vertices g). \<forall>v. g_vertices g ! k = Some v \<longrightarrow>
           v_id v = int k \<and> int k \<le> g_lastVid g \<and> unat (v_family v) < length (g_fsize g)
           \<and> distinct (v_edges v) \<and> (\<forall>a \<in> set (v_edges v). edge_ok g k a))"

text \<open>The number of live vertices whose part field is \<open>p\<close>, and the invariant of the counts.\<close>

definition part_count :: "Graph \<Rightarrow> 8 word \<Rightarrow> int" where
  "part_count g p =
     int (length (filter (\<lambda>c. case c of None \<Rightarrow> False | Some v \<Rightarrow> v_part v = p)
                    (g_vertices g)))"

definition npart_ok :: "Graph \<Rightarrow> bool" where
  "npart_ok g \<longleftrightarrow> (\<forall>p. partSize g p = part_count g p)"

text \<open>A graph of capacity 4 that holds the one vertex 0, labelled \<open>a\<close>, in part 1.\<close>

definition one_vertex_graph :: Graph where
  "one_vertex_graph =
     \<lparr>g_n = 1, g_maxn = 4, g_m = 0, g_lastVid = 0,
      g_vertices = [Some ((Vertex_new 0)\<lparr>v_part := 1, v_label := Some ''a''\<rparr>), None, None, None],
      g_label = None,
      g_npart = (replicate 128 0)[1 := 1],
      g_fsize = (replicate 128 0)[0 := 1],
      g_fname = replicate 128 None,
      g_edges = []\<rparr>"

text \<open>
  The graph \<^verbatim>\<open>Graph g(NULL, 4); g.addVertex(0);\<close>: its one vertex has the default NULL label.
\<close>

definition unlabelled_graph :: Graph where
  "unlabelled_graph =
     \<lparr>g_n = 1, g_maxn = 4, g_m = 0, g_lastVid = 0,
      g_vertices = [Some (Vertex_new 0), None, None, None],
      g_label = None,
      g_npart = (replicate 128 0)[0 := 1],
      g_fsize = (replicate 128 0)[0 := 1],
      g_fname = replicate 128 None,
      g_edges = []\<rparr>"


section \<open>Signatures (paths-cycles.cpp, Path::signature)\<close>

text \<open>
  The inner loop of the insertion sort,
  \<^verbatim>\<open>for (j = i - 1; j >= 0 && *x < *edges[j]; j--) edges[j+1] = edges[j]; edges[j+1] = x\<close>,
  with \<open>k = j + 1\<close> the cell that is free.
\<close>

fun shift :: "estore \<Rightarrow> eptr \<Rightarrow> eptr list \<Rightarrow> nat \<Rightarrow> eptr list option" where
  "shift es x edges 0 = Some (edges[0 := x])"
| "shift es x edges (Suc j) =
     do {
       b \<leftarrow> Edge_less es x (edges ! j);
       if b then shift es x (edges[Suc j := edges ! j]) j
       else Some (edges[Suc j := x])
     }"

text \<open>The outer loop \<^verbatim>\<open>for (i = 1; i < le; i++)\<close>.\<close>

fun sort_loop :: "estore \<Rightarrow> eptr list \<Rightarrow> nat list \<Rightarrow> eptr list option" where
  "sort_loop es edges [] = Some edges"
| "sort_loop es edges (i # is) =
     do { edges' \<leftarrow> shift es (edges ! i) edges i; sort_loop es edges' is }"

text \<open>
  What \<^verbatim>\<open>s.append(edge->getLabel())\<close> appends: the label read as a C string. A NULL label
  and a label copy of 101 characters, which has no terminator, have no value.
\<close>

definition getLabel_str :: "estore \<Rightarrow> eptr \<Rightarrow> string option" where
  "getLabel_str es x =
     do {
       r \<leftarrow> deref es x;
       l \<leftarrow> e_label r;
       if length l \<le> GRAPH_MAX_LABEL then Some l else None
     }"

fun append_labels :: "estore \<Rightarrow> eptr list \<Rightarrow> string \<Rightarrow> string option" where
  "append_labels es [] s = Some s"
| "append_labels es (x # xs) s =
     do { l \<leftarrow> getLabel_str es x; append_labels es xs (s @ l) }"

text \<open>
  \<^verbatim>\<open>Path::signature\<close>: the local vector of \<^verbatim>\<open>le\<close> edge pointers copied from \<^verbatim>\<open>e\<close>, sorted,
  and the labels appended in that order.
\<close>

definition signature :: "estore \<Rightarrow> Path \<Rightarrow> string option" where
  "signature es p =
     (if p_le p < 0 \<or> int (length (p_e p)) < p_le p then None
      else do {
        edges \<leftarrow> sort_loop es (take (nat (p_le p)) (p_e p)) [1..<nat (p_le p)];
        append_labels es edges []
      })"

text \<open>The labels of the edges of a path, in path order.\<close>

definition path_labels :: "estore \<Rightarrow> Path \<Rightarrow> string option list" where
  "path_labels es p = map (getLabel_str es) (take (nat (p_le p)) (p_e p))"

text \<open>
  The sort key of an edge record under \<^verbatim>\<open>Edge::operator<\<close>: a record whose first extremity
  is undefined comes before every other record; the others are ordered by their unordered
  pair of gene ids, smaller id first, and on equal pairs a record whose first extremity is a
  tail comes before one whose first extremity is a head.
\<close>

definition edge_key :: "Edge \<Rightarrow> nat \<times> (int \<times> int) \<times> nat" where
  "edge_key r =
     (if getType (e_ex1 r) = UNDEF then (0, (0, 0), 0)
      else (1, (min (getId (e_ex1 r)) (getId (e_ex2 r)), max (getId (e_ex1 r)) (getId (e_ex2 r))),
            if getType (e_ex1 r) = TAIL then 0 else 1))"

text \<open>
  Two stores of two logical edges each, with the same two labels on exchanged gene-id
  pairs, and the path of two edges (records 0 and 2) to read in either.
\<close>

definition store_xy :: estore where
  "store_xy =
     [Some \<lparr>e_adj = Some 1, e_adjRef = Some 1, e_label = Some ''x'',
            e_ex1 = Extremity 1 TAIL, e_ex2 = Extremity 2 TAIL, e_sibling = None\<rparr>,
      Some \<lparr>e_adj = Some 0, e_adjRef = Some 0, e_label = Some ''x'',
            e_ex1 = Extremity 2 TAIL, e_ex2 = Extremity 1 TAIL, e_sibling = None\<rparr>,
      Some \<lparr>e_adj = Some 0, e_adjRef = Some 3, e_label = Some ''y'',
            e_ex1 = Extremity 3 TAIL, e_ex2 = Extremity 4 TAIL, e_sibling = None\<rparr>,
      Some \<lparr>e_adj = Some 1, e_adjRef = Some 2, e_label = Some ''y'',
            e_ex1 = Extremity 4 TAIL, e_ex2 = Extremity 3 TAIL, e_sibling = None\<rparr>]"

definition store_yx :: estore where
  "store_yx =
     [Some \<lparr>e_adj = Some 1, e_adjRef = Some 1, e_label = Some ''x'',
            e_ex1 = Extremity 3 TAIL, e_ex2 = Extremity 4 TAIL, e_sibling = None\<rparr>,
      Some \<lparr>e_adj = Some 0, e_adjRef = Some 0, e_label = Some ''x'',
            e_ex1 = Extremity 4 TAIL, e_ex2 = Extremity 3 TAIL, e_sibling = None\<rparr>,
      Some \<lparr>e_adj = Some 0, e_adjRef = Some 3, e_label = Some ''y'',
            e_ex1 = Extremity 1 TAIL, e_ex2 = Extremity 2 TAIL, e_sibling = None\<rparr>,
      Some \<lparr>e_adj = Some 1, e_adjRef = Some 2, e_label = Some ''y'',
            e_ex1 = Extremity 2 TAIL, e_ex2 = Extremity 1 TAIL, e_sibling = None\<rparr>]"


text \<open>
  The key and the label of the record an edge pointer designates, and the order of two
  edge pointers by key. A list of edge pointers is sortable when every record is live and
  has a label that is a terminated string (at most 100 characters), and when no two entries
  have the same key, are the same record or are each other's mirror record.
\<close>

definition keylab :: "estore \<Rightarrow> eptr \<Rightarrow> (nat \<times> (int \<times> int) \<times> nat) \<times> string" where
  "keylab es x =
     (case deref es x of
        None \<Rightarrow> ((0, (0, 0), 0), [])
      | Some r \<Rightarrow> (edge_key r, (case e_label r of None \<Rightarrow> [] | Some l \<Rightarrow> l)))"

definition kless :: "estore \<Rightarrow> eptr \<Rightarrow> eptr \<Rightarrow> bool" where
  "kless es a b \<longleftrightarrow> fst (keylab es a) < fst (keylab es b)"

definition sortable :: "estore \<Rightarrow> eptr list \<Rightarrow> bool" where
  "sortable es xs \<longleftrightarrow>
     (\<forall>x \<in> set xs. \<exists>r l. deref es x = Some r
                          \<and> e_label r = Some l \<and> length l \<le> GRAPH_MAX_LABEL
                          \<and> (\<forall>y \<in> set xs. x = y \<or> e_adjRef r \<noteq> y))
     \<and> distinct (map (\<lambda>x. fst (keylab es x)) xs)"

definition signature_ready :: "estore \<Rightarrow> Path \<Rightarrow> bool" where
  "signature_ready es p \<longleftrightarrow>
     0 \<le> p_le p \<and> p_le p \<le> int (length (p_e p)) \<and> sortable es (take (nat (p_le p)) (p_e p))"


text \<open>The cycle of \<open>sample_cycle\<close> walked the other way round, through the mirror records.\<close>

definition sample_cycle_rev :: Path where
  "sample_cycle_rev = \<lparr>p_l = 2, p_le = 2, p_v = [Some 1, Some 0, None, None],
                        p_e = [Some 3, Some 1, None, None]\<rparr>"

text \<open>
  A store in which the two parallel edges \<open>x\<close> and \<open>y\<close> between the vertices 0 and 1 join the
  same two gene ids, each record with a tail as its first extremity.
\<close>

definition store_tie :: estore where
  "store_tie =
     [Some \<lparr>e_adj = Some 1, e_adjRef = Some 1, e_label = Some ''x'',
            e_ex1 = Extremity 1 TAIL, e_ex2 = Extremity 2 TAIL, e_sibling = None\<rparr>,
      Some \<lparr>e_adj = Some 0, e_adjRef = Some 0, e_label = Some ''x'',
            e_ex1 = Extremity 2 TAIL, e_ex2 = Extremity 1 TAIL, e_sibling = None\<rparr>,
      Some \<lparr>e_adj = Some 0, e_adjRef = Some 3, e_label = Some ''y'',
            e_ex1 = Extremity 2 TAIL, e_ex2 = Extremity 1 TAIL, e_sibling = None\<rparr>,
      Some \<lparr>e_adj = Some 1, e_adjRef = Some 2, e_label = Some ''y'',
            e_ex1 = Extremity 1 TAIL, e_ex2 = Extremity 2 TAIL, e_sibling = None\<rparr>]"

text \<open>
  A store with two cycles of two edges each on disjoint vertices, 0 and 1 for the first
  (records 0 and 2), 2 and 3 for the second (records 4 and 6); the second meets the gene-id
  pairs and labels of the first in the other order.
\<close>

definition twin_store :: estore where
  "twin_store =
     [Some \<lparr>e_adj = Some 1, e_adjRef = Some 1, e_label = Some ''x'',
            e_ex1 = Extremity 1 TAIL, e_ex2 = Extremity 2 TAIL, e_sibling = None\<rparr>,
      Some \<lparr>e_adj = Some 0, e_adjRef = Some 0, e_label = Some ''x'',
            e_ex1 = Extremity 2 TAIL, e_ex2 = Extremity 1 TAIL, e_sibling = None\<rparr>,
      Some \<lparr>e_adj = Some 0, e_adjRef = Some 3, e_label = Some ''y'',
            e_ex1 = Extremity 3 TAIL, e_ex2 = Extremity 4 TAIL, e_sibling = None\<rparr>,
      Some \<lparr>e_adj = Some 1, e_adjRef = Some 2, e_label = Some ''y'',
            e_ex1 = Extremity 4 TAIL, e_ex2 = Extremity 3 TAIL, e_sibling = None\<rparr>,
      Some \<lparr>e_adj = Some 3, e_adjRef = Some 5, e_label = Some ''y'',
            e_ex1 = Extremity 3 TAIL, e_ex2 = Extremity 4 TAIL, e_sibling = None\<rparr>,
      Some \<lparr>e_adj = Some 2, e_adjRef = Some 4, e_label = Some ''y'',
            e_ex1 = Extremity 4 TAIL, e_ex2 = Extremity 3 TAIL, e_sibling = None\<rparr>,
      Some \<lparr>e_adj = Some 2, e_adjRef = Some 7, e_label = Some ''x'',
            e_ex1 = Extremity 2 TAIL, e_ex2 = Extremity 1 TAIL, e_sibling = None\<rparr>,
      Some \<lparr>e_adj = Some 3, e_adjRef = Some 6, e_label = Some ''x'',
            e_ex1 = Extremity 1 TAIL, e_ex2 = Extremity 2 TAIL, e_sibling = None\<rparr>]"

definition twin_cycle :: Path where
  "twin_cycle = \<lparr>p_l = 2, p_le = 2, p_v = [Some 2, Some 3, None, None],
                  p_e = [Some 4, Some 6, None, None]\<rparr>"

text \<open>
  The dedup loop of \<^verbatim>\<open>buildCyclesGraph(ag, len)\<close>,
  \<^verbatim>\<open>for (auto c : *list) { sign = c->signature(); if (cycle_signatures.find(sign) ==
  cycle_signatures.end()) { cycle_signatures.insert(sign); cycles->push_front(c); } else
  delete c; }\<close>, on the set of signatures seen and the list of cycles kept.
\<close>

fun dedup_loop ::
  "estore \<Rightarrow> Path list \<Rightarrow> string set \<times> Path list \<Rightarrow> (string set \<times> Path list) option" where
  "dedup_loop es [] s = Some s"
| "dedup_loop es (c # cs) s =
     (case s of (cycle_signatures, cycles) \<Rightarrow>
      do {
        sign \<leftarrow> signature es c;
        if sign \<notin> cycle_signatures
        then dedup_loop es cs (insert sign cycle_signatures, c # cycles)
        else dedup_loop es cs (cycle_signatures, cycles)
      })"


section \<open>Iteration, the remaining mutators and the copy constructor (graph.cpp, graph.hpp)\<close>

text \<open>A loop body run over a list of items, ended by the first step that has no result.\<close>

fun fold_opt :: "('a \<Rightarrow> 's \<Rightarrow> 's option) \<Rightarrow> 'a list \<Rightarrow> 's \<Rightarrow> 's option" where
  "fold_opt f [] s = Some s"
| "fold_opt f (x # xs) s = do { s' \<leftarrow> f x s; fold_opt f xs s' }"

text \<open>
  The vertices a \<^verbatim>\<open>Graph::iterator\<close> visits from \<^verbatim>\<open>_begin(part, family)\<close> to \<^verbatim>\<open>end()\<close>: the
  slots below \<^verbatim>\<open>maxn\<close>, in ascending order, that hold a vertex matching the filter, where
  \<open>-1\<close> matches all. The \<^verbatim>\<open>char\<close> filter is compared as a signed value with the unsigned
  part field. (No loop of the repository adds or removes a vertex of the graph it
  iterates, so the visited slots are those of the graph at the start of the loop.)
\<close>

fun iter_from :: "Vertex option list \<Rightarrow> 8 word \<Rightarrow> int \<Rightarrow> nat list \<Rightarrow> nat list option" where
  "iter_from vs part family [] = Some []"
| "iter_from vs part family (i # is) =
     do {
       cell \<leftarrow> vec_at vs (int i);
       rest \<leftarrow> iter_from vs part family is;
       Some (case cell of
               None \<Rightarrow> rest
             | Some v \<Rightarrow>
                 if (sint part = - 1 \<or> sint part = uint (v_part v))
                    \<and> (family = - 1 \<or> family = uint (v_family v))
                 then i # rest else rest)
     }"

definition Graph_iter :: "Graph \<Rightarrow> 8 word \<Rightarrow> int \<Rightarrow> nat list option" where
  "Graph_iter g part family = iter_from (g_vertices g) part family [0..<nat (g_maxn g)]"

text \<open>\<^verbatim>\<open>Vertex::hasExtremity\<close>.\<close>

definition hasExtremity :: "Vertex \<Rightarrow> Extremity \<Rightarrow> bool" where
  "hasExtremity v ex \<longleftrightarrow> Extremity_eq ex (v_ex1 v) \<or> Extremity_eq ex (v_ex2 v)"

text \<open>
  \<^verbatim>\<open>Graph::removeEdge(Extremity ex1, Extremity ex2)\<close>: the loop over the edge list of one
  vertex, which steps to the next record before it removes one, and the loop over the
  vertices.
\<close>

fun removeEdge_ex_edges :: "Extremity \<Rightarrow> Extremity \<Rightarrow> nat list \<Rightarrow> Graph \<Rightarrow> Graph option" where
  "removeEdge_ex_edges ex1 ex2 [] g = Some g"
| "removeEdge_ex_edges ex1 ex2 (a # as) g =
     do {
       r \<leftarrow> deref (g_edges g) (Some a);
       g' \<leftarrow> (if (Extremity_eq (e_ex1 r) ex1 \<and> Extremity_eq (e_ex2 r) ex2)
                  \<or> (Extremity_eq (e_ex1 r) ex2 \<and> Extremity_eq (e_ex2 r) ex1)
               then removeEdge g (Some a) else Some g);
       removeEdge_ex_edges ex1 ex2 as g'
     }"

definition removeEdge_ex_vertex :: "Extremity \<Rightarrow> Extremity \<Rightarrow> nat \<Rightarrow> Graph \<Rightarrow> Graph option" where
  "removeEdge_ex_vertex ex1 ex2 k g =
     do {
       v \<leftarrow> vderef g (Some k);
       if hasExtremity v ex1 \<or> hasExtremity v ex2
       then removeEdge_ex_edges ex1 ex2 (v_edges v) g
       else Some g
     }"

definition removeEdge_ex :: "Graph \<Rightarrow> Extremity \<Rightarrow> Extremity \<Rightarrow> Graph option" where
  "removeEdge_ex g ex1 ex2 =
     do {
       ks \<leftarrow> Graph_iter g (- 1) (- 1);
       fold_opt (removeEdge_ex_vertex ex1 ex2) ks g
     }"

text \<open>\<^verbatim>\<open>Graph::setLabel\<close> and \<^verbatim>\<open>Graph::setFamilyName\<close>.\<close>

definition setLabel :: "Graph \<Rightarrow> string option \<Rightarrow> Graph" where
  "setLabel g label = g\<lparr>g_label := label_copy label\<rparr>"

definition setFamilyName :: "Graph \<Rightarrow> 32 word \<Rightarrow> string \<Rightarrow> Graph option" where
  "setFamilyName g family name =
     do {
       sz \<leftarrow> grow_size (unat family) (length (g_fname g));
       Some (g\<lparr>g_fname := (resize (g_fname g) sz None)[unat family := Some name]\<rparr>)
     }"

text \<open>
  \<^verbatim>\<open>Graph::Graph(Graph &g)\<close>. The body of the first loop, for the vertex in slot \<open>k\<close> of
  \<open>g\<close>; the body of the inner loop of the second, for the edge record at \<open>a\<close> in the list of
  that vertex; and the constructor. \<open>this\<close> is the graph under construction.
\<close>

definition copy_vertex :: "Graph \<Rightarrow> nat \<Rightarrow> Graph \<Rightarrow> Graph option" where
  "copy_vertex g k this =
     do {
       v \<leftarrow> vderef g (Some k);
       (newv, t1) \<leftarrow> addVertex_id this (v_id v) (v_label v) (v_part v) (ucast (v_family v));
       t2 \<leftarrow> Vertex_setDirection t1 newv (v_direction v);
       Vertex_setExtremities t2 newv (getId (v_ex1 v)) (getType (v_ex1 v))
         (getId (v_ex2 v)) (getType (v_ex2 v))
     }"

definition copy_edge :: "Graph \<Rightarrow> nat \<Rightarrow> nat \<Rightarrow> Graph \<Rightarrow> Graph option" where
  "copy_edge g k a this =
     do {
       v \<leftarrow> vderef g (Some k);
       e \<leftarrow> deref (g_edges g) (Some a);
       adjv \<leftarrow> vderef g (e_adj e);
       if v_id adjv > v_id v
       then (let sibling = e_sibling e in
             if sibling \<noteq> None \<and> getType (e_ex1 e) = HEAD then Some this
             else do {
               (newe, t1) \<leftarrow> addEdge_id this (v_id v) (v_id adjv) (e_label e);
               t2 \<leftarrow> Edge_setExtremities t1 newe (getId (e_ex1 e)) (getType (e_ex1 e))
                       (getId (e_ex2 e)) (getType (e_ex2 e));
               if sibling \<noteq> None
               then do {
                 s \<leftarrow> deref (g_edges g) sibling;
                 sm \<leftarrow> deref (g_edges g) (e_adjRef s);
                 sv1 \<leftarrow> vderef g (e_adj sm);
                 sv2 \<leftarrow> vderef g (e_adj s);
                 (newe_sibling, t3) \<leftarrow> addEdge_id t2 (v_id sv1) (v_id sv2) (e_label s);
                 t4 \<leftarrow> Edge_setExtremities t3 newe_sibling (getId (e_ex1 e)) (getType (e_ex1 e))
                         (getId (e_ex2 e)) (getType (e_ex2 e));
                 t5 \<leftarrow> Edge_setSibling t4 newe newe_sibling;
                 Edge_setSibling t5 newe_sibling newe
               }
               else Some t2
             })
       else Some this
     }"

definition copy_edges_of :: "Graph \<Rightarrow> nat \<Rightarrow> Graph \<Rightarrow> Graph option" where
  "copy_edges_of g k this =
     do { v \<leftarrow> vderef g (Some k); fold_opt (copy_edge g k) (v_edges v) this }"

definition Graph_copy :: "Graph \<Rightarrow> Graph option" where
  "Graph_copy g =
     do {
       t0 \<leftarrow> Graph_new (g_label g) (g_maxn g);
       ks \<leftarrow> Graph_iter g (- 1) (- 1);
       t1 \<leftarrow> fold_opt (copy_vertex g) ks t0;
       fold_opt (copy_edges_of g) ks t1
     }"


text \<open>
  A graph of four vertices with the edge \<open>e\<close> from 0 to 1 on the extremities \<open>1t-2t\<close>, the edge
  \<open>s\<close> from 2 to 3 on \<open>1h-2h\<close>, and \<open>e\<close> and \<open>s\<close> set as each other's sibling, built through
  the interface of \<^verbatim>\<open>Graph\<close> and \<^verbatim>\<open>Edge\<close>.
\<close>

definition sibling_graph :: "Graph option" where
  "sibling_graph =
     do {
       g \<leftarrow> Graph_new None 4;
       (_, g) \<leftarrow> addVertex_id g 0 (Some ''v0'') 0 0;
       (_, g) \<leftarrow> addVertex_id g 1 (Some ''v1'') 0 0;
       (_, g) \<leftarrow> addVertex_id g 2 (Some ''v2'') 0 0;
       (_, g) \<leftarrow> addVertex_id g 3 (Some ''v3'') 0 0;
       (e, g) \<leftarrow> addEdge_id g 0 1 (Some ''e'');
       g \<leftarrow> Edge_setExtremities g e 1 TAIL 2 TAIL;
       (s, g) \<leftarrow> addEdge_id g 2 3 (Some ''s'');
       g \<leftarrow> Edge_setExtremities g s 1 HEAD 2 HEAD;
       g \<leftarrow> Edge_setSibling g e s;
       Edge_setSibling g s e
     }"


text \<open>What the edge records of a graph hold, cell by cell, without the labels.\<close>

definition edge_view :: "Graph \<Rightarrow> (vptr \<times> Extremity \<times> Extremity \<times> eptr) option list" where
  "edge_view g = map (map_option (\<lambda>e. (e_adj e, e_ex1 e, e_ex2 e, e_sibling e))) (g_edges g)"


text \<open>
  The address \<open>a\<close> is in the edge list of the vertex in slot \<open>k\<close>; and two graphs agree on the
  per-part counts and on the id and the part of the vertex in every slot.
\<close>

definition listed :: "Graph \<Rightarrow> nat \<Rightarrow> nat \<Rightarrow> bool" where
  "listed g k a \<longleftrightarrow>
     k < length (g_vertices g) \<and> (\<exists>v. g_vertices g ! k = Some v \<and> a \<in> set (v_edges v))"

definition same_slots :: "Graph \<Rightarrow> Graph \<Rightarrow> bool" where
  "same_slots g g' \<longleftrightarrow>
     g_npart g' = g_npart g
     \<and> map (map_option (\<lambda>v. (v_id v, v_part v))) (g_vertices g')
        = map (map_option (\<lambda>v. (v_id v, v_part v))) (g_vertices g)"


text \<open>
  Two abbreviations used when the effect of \<^verbatim>\<open>addEdge\<close> and \<^verbatim>\<open>removeEdge\<close> on the edge
  store is written out: the record \<^verbatim>\<open>new Edge(adj, label)\<close> with its \<^verbatim>\<open>adjRef\<close> set, and an
  edge whose \<^verbatim>\<open>sibling\<close> pointer is cleared when its address lies in the set \<open>C\<close>.
\<close>

definition new_edge :: "vptr \<Rightarrow> nat \<Rightarrow> string option \<Rightarrow> Edge" where
  "new_edge adj m l = \<lparr>e_adj = adj, e_adjRef = Some m, e_label = label_copy l,
                e_ex1 = Extremity 0 UNDEF, e_ex2 = Extremity 0 UNDEF, e_sibling = None\<rparr>"

definition clr :: "nat set \<Rightarrow> nat \<Rightarrow> Edge \<Rightarrow> Edge" where
  "clr C x r = (if x \<in> C then r\<lparr>e_sibling := None\<rparr> else r)"


section \<open>The conflict graph of a list of cycles (paths-cycles.cpp, CyclesGraph)\<close>

text \<open>
  The table \<^verbatim>\<open>unordered_map<int, map<int, forward_list<Vertex *>>> associations\<close>: the outer
  map is read by key only, the inner \<^verbatim>\<open>std::map\<close> is iterated in key order, so it is kept as a
  list of pairs in ascending key order. \<open>push_assoc k v m\<close> is \<^verbatim>\<open>m[k].push_front(v)\<close>.
\<close>

type_synonym table = "(int \<times> vptr list) list"
type_synonym associations = "int \<Rightarrow> table"

fun push_assoc :: "int \<Rightarrow> vptr \<Rightarrow> table \<Rightarrow> table" where
  "push_assoc k v [] = [(k, [v])]"
| "push_assoc k v ((k', ws) # m) =
     (if k = k' then (k', v # ws) # m
      else if k < k' then (k, [v]) # (k', ws) # m
      else (k', ws) # push_assoc k v m)"

text \<open>
  The loop \<^verbatim>\<open>for (auto &&w : table->second) if (added.find(w) == added.end()) { addEdge(v, w);
  added.insert(w); }\<close> over one list of the table.
\<close>

fun link_list :: "Graph \<Rightarrow> vptr \<Rightarrow> vptr list \<Rightarrow> vptr set \<Rightarrow> (Graph \<times> vptr set) option" where
  "link_list g v [] added = Some (g, added)"
| "link_list g v (w # ws) added =
     (if w \<in> added then link_list g v ws added
      else do {
        (_, g') \<leftarrow> addEdge g v w None;
        link_list g' v ws (insert w added)
      })"

text \<open>
  The loop over the entries of \<^verbatim>\<open>associations[a]\<close>, which passes over the entry whose key is
  the other gene id of the edge (\<^verbatim>\<open>if (table->first == to.getId()) continue;\<close>).
\<close>

fun link_tables ::
  "Graph \<Rightarrow> vptr \<Rightarrow> int \<Rightarrow> table \<Rightarrow> vptr set \<Rightarrow> (Graph \<times> vptr set) option" where
  "link_tables g v skip [] added = Some (g, added)"
| "link_tables g v skip ((k, ws) # tables) added =
     (if k = skip then link_tables g v skip tables added
      else do {
        (g', added') \<leftarrow> link_list g v ws added;
        link_tables g' v skip tables added'
      })"

text \<open>
  The body of \<^verbatim>\<open>for (int i = 0; i < c->lenE(); i++)\<close> for the indices \<open>is\<close>, on the conflict
  graph, the table and the set \<^verbatim>\<open>added\<close>; \<open>es\<close> is the edge store of the adjacency graph.
\<close>

fun cycle_edges ::
  "estore \<Rightarrow> Path \<Rightarrow> vptr \<Rightarrow> nat list \<Rightarrow> Graph \<times> associations \<times> vptr set
     \<Rightarrow> (Graph \<times> associations \<times> vptr set) option" where
  "cycle_edges es c v [] s = Some s"
| "cycle_edges es c v (i # is) s =
     (case s of (g, assoc, added) \<Rightarrow>
      do {
        ep \<leftarrow> nthE c (int i);
        e \<leftarrow> deref es ep;
        let from = e_ex1 e; to = e_ex2 e in
        if getType from = UNDEF \<or> getType to = UNDEF then cycle_edges es c v is s
        else do {
          (g1, added1) \<leftarrow> link_tables g v (getId to) (assoc (getId from)) added;
          let assoc1 = assoc(getId from := push_assoc (getId to) v (assoc (getId from)));
          (g2, added2) \<leftarrow> link_tables g1 v (getId from) (assoc1 (getId to)) added1;
          let assoc2 = assoc1(getId to := push_assoc (getId from) v (assoc1 (getId to)));
          cycle_edges es c v is (g2, assoc2, added2)
        }
      })"

text \<open>
  The loop \<^verbatim>\<open>for (auto c : *cycles)\<close>: a vertex labelled with the signature, the cycle as its
  data, and the edges to the vertices of the cycles in conflict that came before.
\<close>

fun build_loop :: "estore \<Rightarrow> Path list \<Rightarrow> Graph \<times> associations \<Rightarrow> (Graph \<times> associations) option" where
  "build_loop es [] s = Some s"
| "build_loop es (c # cs) s =
     (case s of (g, assoc) \<Rightarrow>
      do {
        sign \<leftarrow> signature es c;
        (v, g1) \<leftarrow> addVertex g (Some sign) 0 0;
        g2 \<leftarrow> Vertex_setData g1 v (Some c);
        (g3, assoc', _) \<leftarrow> cycle_edges es c v [0..<nat (lenE c)] (g2, assoc, {});
        build_loop es cs (g3, assoc')
      })"

text \<open>
  \<^verbatim>\<open>CyclesGraph::buildCyclesGraph(Graph *ag, std::forward_list<Path *> *cycles)\<close> on the graph
  \<open>this\<close>; of \<^verbatim>\<open>ag\<close> the edge records the cycles point to are read.
\<close>

definition buildCyclesGraph_cycles :: "Graph \<Rightarrow> estore \<Rightarrow> Path list \<Rightarrow> Graph option" where
  "buildCyclesGraph_cycles this es cycles =
     map_option fst (build_loop es cycles (this, \<lambda>_. []))"

text \<open>Two vertices are adjacent when an edge record listed at the first points to the second.\<close>

definition adjacent :: "Graph \<Rightarrow> nat \<Rightarrow> nat \<Rightarrow> bool" where
  "adjacent g i j =
     (case vderef g (Some i) of
        None \<Rightarrow> False
      | Some v \<Rightarrow> list_ex (\<lambda>a. case deref (g_edges g) (Some a) of
                                  None \<Rightarrow> False
                                | Some e \<Rightarrow> e_adj e = Some j) (v_edges v))"

text \<open>
  The edges of a cycle the builder looks at: those with both extremities defined. Two cycles
  are in conflict when an edge of one is incompatible (\<^verbatim>\<open>Edge::incompatible\<close>) with an edge of
  the other.
\<close>

definition edges_at :: "estore \<Rightarrow> Path \<Rightarrow> nat list \<Rightarrow> Edge list" where
  "edges_at es c is =
     concat (map (\<lambda>i. case deref es (p_e c ! i) of
                         None \<Rightarrow> []
                       | Some e \<Rightarrow> if getType (e_ex1 e) = UNDEF \<or> getType (e_ex2 e) = UNDEF
                                   then [] else [e]) is)"










text \<open>
  Notions used to describe the state of the builder between two steps: the pairs (key, vertex)
  held by a table; the vertices a scan of a table reaches when it passes over the key
  \<open>skip\<close>; the edges that join vertex \<open>k\<close> to the vertices of a set; the two orders of the
  gene ids of an edge; the vertices the two scans for one edge reach; and the invariant of
  the loop over the cycles \<open>ds\<close> already handled.
\<close>

definition entries :: "table \<Rightarrow> (int \<times> vptr) set" where
  "entries m = {(b, w). \<exists>ws. (b, ws) \<in> set m \<and> w \<in> set ws}"

definition hits :: "int \<Rightarrow> table \<Rightarrow> vptr set" where
  "hits skip m = {w. \<exists>b. b \<noteq> skip \<and> (b, w) \<in> entries m}"

definition star :: "nat \<Rightarrow> vptr set \<Rightarrow> nat \<Rightarrow> nat \<Rightarrow> bool" where
  "star k S x y \<longleftrightarrow> (\<exists>j. Some j \<in> S \<and> j \<noteq> k \<and> ((x = k \<and> y = j) \<or> (x = j \<and> y = k)))"





section \<open>The enumeration of cycles (paths-cycles.cpp, CyclesGraph::buildCyclesGraph(ag, len))\<close>

text \<open>
  The loop \<^verbatim>\<open>for (auto e : *p->last())\<close> over the edge records \<open>es\<close> of the last vertex of the
  path \<open>p\<close>, on the path object (which \<^verbatim>\<open>consistent(e)\<close> writes to) and \<^verbatim>\<open>newlist\<close>; \<open>final\<close>
  is \<^verbatim>\<open>i == len-1\<close>.
\<close>

fun extend_loop :: "estore \<Rightarrow> bool \<Rightarrow> eptr list \<Rightarrow> Path \<times> Path list \<Rightarrow> (Path \<times> Path list) option" where
  "extend_loop es final [] s = Some s"
| "extend_loop es final (e # rest) s =
     (case s of (p, newlist) \<Rightarrow>
      do {
        (ok, p1) \<leftarrow> consistent_e es p e;
        if \<not> ok then extend_loop es final rest (p1, newlist)
        else do {
          cycle \<leftarrow> isCycle_e es p1 e;
          if \<not> final \<and> \<not> cycle
          then do {
            ed \<leftarrow> deref es e;
            q1 \<leftarrow> addVertex_p p1 (e_adj ed);
            q2 \<leftarrow> addEdge_p q1 e;
            extend_loop es final rest (p1, q2 # newlist)
          }
          else if final \<and> cycle
          then do {
            fe \<leftarrow> firstE p1;
            gt \<leftarrow> Edge_greater es e fe;
            if gt then do { q \<leftarrow> addEdge_p p1 e; extend_loop es final rest (p1, q # newlist) }
            else extend_loop es final rest (p1, newlist)
          }
          else extend_loop es final rest (p1, newlist)
        }
      })"

text \<open>The loop \<^verbatim>\<open>for (auto p : *list)\<close> of one round.\<close>

fun round_loop :: "Graph \<Rightarrow> bool \<Rightarrow> Path list \<Rightarrow> Path list \<Rightarrow> Path list option" where
  "round_loop g final [] newlist = Some newlist"
| "round_loop g final (p # list) newlist =
     do {
       lp \<leftarrow> last_p p;
       lv \<leftarrow> vderef g lp;
       (_, newlist') \<leftarrow> extend_loop (g_edges g) final (map Some (v_edges lv)) (p, newlist);
       round_loop g final list newlist'
     }"

text \<open>The rounds \<^verbatim>\<open>for (int i = 0; i < len; i++)\<close>, each from the list the one before left.\<close>

fun rounds :: "Graph \<Rightarrow> int \<Rightarrow> int list \<Rightarrow> Path list \<Rightarrow> Path list option" where
  "rounds g n [] list = Some list"
| "rounds g n (i # is) list =
     do { newlist \<leftarrow> round_loop g (i = n - 1) list []; rounds g n is newlist }"

text \<open>
  The loop over the start vertices, on the set of signatures seen and the list of cycles
  found.
\<close>

fun start_loop ::
  "Graph \<Rightarrow> int \<Rightarrow> nat list \<Rightarrow> string set \<times> Path list \<Rightarrow> (string set \<times> Path list) option" where
  "start_loop g n [] s = Some s"
| "start_loop g n (k # ks) s =
     do {
       p0 \<leftarrow> Path_of (Some k);
       list \<leftarrow> rounds g n (map int [0..<nat n]) [p0];
       s' \<leftarrow> dedup_loop (g_edges g) list s;
       start_loop g n ks s'
     }"

text \<open>
  The cycles \<^verbatim>\<open>buildCyclesGraph(ag, len)\<close> hands to \<^verbatim>\<open>buildCyclesGraph(ag, cycles)\<close>: none
  when the graph is empty or \<^verbatim>\<open>len < 2\<close>, else those found from the vertices of the part of
  the first vertex.
\<close>

definition enumCycles :: "Graph \<Rightarrow> int \<Rightarrow> Path list option" where
  "enumCycles ag n =
     (if getN ag < 1 \<or> n < 2 then Some []
      else do {
        vs \<leftarrow> Graph_iter ag (- 1) (- 1);
        v \<leftarrow> (case vs of [] \<Rightarrow> None | k # _ \<Rightarrow> vderef ag (Some k));
        starts \<leftarrow> Graph_iter ag (v_part v) (- 1);
        (_, cycles) \<leftarrow> start_loop ag n starts ({}, []);
        Some cycles
      })"

definition buildCyclesGraph_len :: "Graph \<Rightarrow> Graph \<Rightarrow> int \<Rightarrow> Graph option" where
  "buildCyclesGraph_len this ag n =
     do { cycles \<leftarrow> enumCycles ag n; buildCyclesGraph_cycles this (g_edges ag) cycles }"












section \<open>Edge incompatibility\<close>

text \<open>
  C1 (as the code has it): \<^verbatim>\<open>incompatible\<close> holds exactly when one, and only one, of the two
  gene-id equalities of the straight pairing holds, or one and only one of the crossed
  pairing; the kinds of the extremities are not looked at.
\<close>

theorem incompatible_iff_ids:
  "incompatible x y \<longleftrightarrow>
     ((getId (e_ex1 x) = getId (e_ex1 y)) \<noteq> (getId (e_ex2 x) = getId (e_ex2 y)))
     \<or> ((getId (e_ex1 x) = getId (e_ex2 y)) \<noteq> (getId (e_ex2 x) = getId (e_ex1 y)))"
  by (simp add: incompatible_def)

text \<open>
  C1 as stated fails: the edges \<open>1t-2t\<close> and \<open>2h-5h\<close> of the header's own example share the
  gene id 2 and are incompatible for the code, while no two of their extremities are equal.
\<close>

theorem incompatible_spec_counterexample:
  "incompatible
     \<lparr>e_adj = Some 1, e_adjRef = Some 1, e_label = None,
      e_ex1 = Extremity 1 TAIL, e_ex2 = Extremity 2 TAIL, e_sibling = None\<rparr>
     \<lparr>e_adj = Some 3, e_adjRef = Some 3, e_label = None,
      e_ex1 = Extremity 2 HEAD, e_ex2 = Extremity 5 HEAD, e_sibling = None\<rparr>
   \<and> \<not> incompatible_spec (Extremity 1 TAIL) (Extremity 2 TAIL) (Extremity 2 HEAD) (Extremity 5 HEAD)"
  by (simp add: incompatible_def incompatible_spec_def Extremity_eq_def)

theorem incompatible_iff_ids_witness:
  "incompatible
     \<lparr>e_adj = Some 1, e_adjRef = Some 1, e_label = None,
      e_ex1 = Extremity 1 HEAD, e_ex2 = Extremity 2 TAIL, e_sibling = None\<rparr>
     \<lparr>e_adj = Some 3, e_adjRef = Some 3, e_label = None,
      e_ex1 = Extremity 1 HEAD, e_ex2 = Extremity 5 HEAD, e_sibling = None\<rparr>"
  using incompatible_iff_ids
    [of "\<lparr>e_adj = Some 1, e_adjRef = Some 1, e_label = None,
          e_ex1 = Extremity 1 HEAD, e_ex2 = Extremity 2 TAIL, e_sibling = None\<rparr>"
        "\<lparr>e_adj = Some 3, e_adjRef = Some 3, e_label = None,
          e_ex1 = Extremity 1 HEAD, e_ex2 = Extremity 5 HEAD, e_sibling = None\<rparr>"]
  by simp

section \<open>Path predicates\<close>

lemma sample_path_wf: "Path_wf sample_store sample_path"
  by (simp add: Path_wf_def sample_path_def sample_store_def deref_def)

lemma sample_cycle_wf: "Path_wf sample_store sample_cycle"
  by (simp add: Path_wf_def sample_cycle_def sample_store_def deref_def nth_Cons'
      less_Suc_eq numeral_2_eq_2)

text \<open>
  C5 (as the code has it): on a well-formed path \<^verbatim>\<open>isCycle()\<close> returns, and it is true exactly
  when more than one vertex is listed, the vertex count is the edge count plus one and the
  first vertex is the last one, or when more than one edge is listed, the two counts agree
  and the last edge points to the first vertex.
\<close>

theorem isCycle_guarded:
  assumes "Path_wf es p"
  shows "isCycle es p =
     Some ((1 < len p \<and> len p = lenE p + 1 \<and> first p = last_p p)
           \<or> (1 < lenE p \<and> len p = lenE p
               \<and> (\<exists>le ed f. lastE p = Some le \<and> deref es le = Some ed
                      \<and> first p = Some f \<and> e_adj ed = f)))"
proof -
  from assms have b: "0 \<le> p_l p" "p_l p \<le> int (length (p_v p))" "0 \<le> p_le p"
      "p_le p \<le> int (length (p_e p))" "p_v p \<noteq> []" "p_e p \<noteq> []"
    and d: "\<forall>i < nat (p_le p). deref es (p_e p ! i) \<noteq> None"
    by (simp_all add: Path_wf_def)
  show ?thesis
  proof (cases "1 < p_l p \<and> p_l p = p_le p + 1")
    case True
    with b have "first p = Some (p_v p ! 0)" "last_p p = Some (p_v p ! nat (p_l p - 1))"
      by (simp_all add: first_def last_p_def vec_at_def)
    with True show ?thesis
      by (auto simp: isCycle_def len_def lenE_def)
  next
    case False
    note nf = this
    show ?thesis
    proof (cases "1 < p_le p \<and> p_l p = p_le p")
      case True
      with b have f: "first p = Some (p_v p ! 0)" and l: "lastE p = Some (p_e p ! nat (p_le p - 1))"
        by (simp_all add: first_def lastE_def vec_at_def)
      from True d obtain ed where ed: "deref es (p_e p ! nat (p_le p - 1)) = Some ed"
      proof -
        from True have "nat (p_le p - 1) < nat (p_le p)" by linarith
        with d show ?thesis using that by blast
      qed
      from True nf f l ed show ?thesis
        by (auto simp: isCycle_def len_def lenE_def)
    next
      case False
      with nf show ?thesis by (auto simp: isCycle_def len_def lenE_def)
    qed
  qed
qed

theorem isCycle_guarded_witness:
  "Path_wf sample_store sample_cycle \<and> isCycle sample_store sample_cycle = Some True"
proof -
  have r: "lastE sample_cycle = Some (Some 2)" "first sample_cycle = Some (Some 0)"
    "deref sample_store (Some 2) =
       Some \<lparr>e_adj = Some 0, e_adjRef = Some 3, e_label = Some ''b'',
             e_ex1 = Extremity 2 HEAD, e_ex2 = Extremity 1 HEAD, e_sibling = None\<rparr>"
    by (simp_all add: lastE_def first_def vec_at_def sample_cycle_def sample_store_def deref_def)
  show ?thesis
    using sample_cycle_wf isCycle_guarded [OF sample_cycle_wf] r
    by (simp add: len_def lenE_def sample_cycle_def)
qed

text \<open>
  C5 as stated fails: the path that holds one vertex and no edge has a vertex count of the
  edge count plus one and its first vertex is its last one, and \<^verbatim>\<open>isCycle()\<close> is false.
\<close>

theorem isCycle_spec_counterexample:
  "isCycle [] single_vertex_path = Some False \<and> isCycle_spec [] single_vertex_path"
  by (simp add: isCycle_def isCycle_spec_def single_vertex_path_def len_def lenE_def
      first_def last_p_def vec_at_def)


lemma unsigned_id: "0 \<le> i \<Longrightarrow> i < 2 ^ 31 \<Longrightarrow> unsigned i = nat i"
  by (simp add: unsigned_def)

lemma inPath_loop_total:
  assumes "deref es e = Some ed" "\<forall>i \<in> set is. i < length (p_e p)"
  shows "inPath_loop es p e is = Some (\<exists>i \<in> set is. p_e p ! i = e \<or> p_e p ! i = e_adjRef ed)"
  using assms by (induction "is") (auto simp: vec_at_def)

lemma inPath_total:
  assumes "deref es e = Some ed" "p_le p \<le> int (length (p_e p))"
  shows "inPath es p e = Some (\<exists>i < nat (p_le p). p_e p ! i = e \<or> p_e p ! i = e_adjRef ed)"
proof -
  have "\<forall>i \<in> set [0..<nat (p_le p)]. i < length (p_e p)" using assms(2) by auto
  from inPath_loop_total[OF assms(1) this] show ?thesis by (simp add: inPath_def Bex_def)
qed

lemma Edge_eq_total: "deref es b \<noteq> None \<Longrightarrow> Edge_eq es a b \<noteq> None"
  by (auto simp: Edge_eq_def)

lemma consistent_inner_total:
  assumes "\<forall>k < nat (p_le p). k < length (p_e p) \<and> deref es (p_e p ! k) \<noteq> None"
    "i < nat (p_le p)" "\<forall>j \<in> set js. j < nat (p_le p)"
  shows "consistent_inner es p i js \<noteq> None"
  using assms
proof (induction js)
  case Nil then show ?case by simp
next
  case (Cons j js)
  then obtain b where b: "consistent_inner es p i js = Some b" by auto
  from Cons.prems obtain x y where x: "deref es (p_e p ! i) = Some x" and y: "deref es (p_e p ! j) = Some y"
    and l: "i < length (p_e p)" "j < length (p_e p)"
    by (metis list.set_intros(1) not_None_eq)
  from y obtain c where "Edge_eq es (p_e p ! i) (p_e p ! j) = Some c"
    using Edge_eq_total[of es "p_e p ! j" "p_e p ! i"] by auto
  then show ?case using b x y l
    by (auto simp: vec_at_def)
qed

lemma consistent_outer_total:
  assumes "\<forall>k < nat (p_le p). k < length (p_e p) \<and> deref es (p_e p ! k) \<noteq> None"
    "\<forall>i \<in> set is. i < nat (p_le p)"
  shows "consistent_outer es p is \<noteq> None"
  using assms
proof (induction "is")
  case Nil then show ?case by simp
next
  case (Cons i "is")
  then obtain b where b: "consistent_outer es p is = Some b" by auto
  have "\<forall>j \<in> set [0..<nat (p_le p)]. j < nat (p_le p)" by simp
  from consistent_inner_total[OF Cons.prems(1) _ this, of i] Cons.prems(2)
  obtain c where "consistent_inner es p i [0..<nat (p_le p)] = Some c" by auto
  with b show ?case by auto
qed

lemma consistent_total:
  assumes "\<forall>k < nat (p_le p). k < length (p_e p) \<and> deref es (p_e p ! k) \<noteq> None"
  shows "consistent es p \<noteq> None"
  unfolding consistent_def by (rule consistent_outer_total[OF assms]) simp

lemma resize_le: "k \<le> length xs \<Longrightarrow> resize xs k d = take k xs"
  by (simp add: resize_def)

lemma grow_update:
  fixes xs :: "'a list" and d :: 'a
  assumes "0 \<le> l" "l \<le> int (length xs)" "0 < length xs" "l < 2 ^ 31"
  defines "vs \<equiv> (if unsigned l = length xs then xs @ replicate (length xs * 2 - length xs) d else xs)"
  shows "l < int (length vs)" "nat l < length (vs[nat l := x])"
    "take (nat l) (vs[nat l := x]) = take (nat l) xs" "vs[nat l := x] ! nat l = x"
proof -
  show l: "l < int (length vs)"
  proof (cases "unsigned l = length xs")
    case True
    then have "length vs = 2 * length xs" by (simp add: vs_def)
    with assms(1-4) show ?thesis by linarith
  next
    case False
    then have "nat l \<noteq> length xs" using assms(1-4) by (simp add: unsigned_id)
    moreover have "vs = xs" using False by (simp add: vs_def)
    ultimately show ?thesis using assms(1-4) by auto
  qed
  then show "nat l < length (vs[nat l := x])" using assms(1) by simp
  show "take (nat l) (vs[nat l := x]) = take (nat l) xs"
    using assms(1-4) by (simp add: vs_def)
  show "vs[nat l := x] ! nat l = x" using l assms(1) by simp
qed

lemma addVertex_p_Some:
  assumes "0 \<le> p_l p" "p_l p \<le> int (length (p_v p))" "0 < length (p_v p)" "p_l p < 2 ^ 31"
  shows "\<exists>vs. addVertex_p p x = Some (p\<lparr>p_v := vs, p_l := p_l p + 1\<rparr>)
           \<and> nat (p_l p) < length vs \<and> take (nat (p_l p)) vs = take (nat (p_l p)) (p_v p)
           \<and> vs ! nat (p_l p) = x"
proof -
  note g1 = grow_update(1)[OF assms, where d=None]
  note g = grow_update(2-4)[OF assms, where d=None and x=x]
  have "addVertex_p p x = Some (p\<lparr>p_v := (if unsigned (p_l p) = length (p_v p)
                then p_v p @ replicate (length (p_v p) * 2 - length (p_v p)) None
                else p_v p)[nat (p_l p) := x], p_l := p_l p + 1\<rparr>)"
    using g1 assms(1) unfolding addVertex_p_def Let_def by simp
  with g show ?thesis by blast
qed

lemma addEdge_p_Some:
  assumes "0 \<le> p_le p" "p_le p \<le> int (length (p_e p))" "0 < length (p_e p)" "p_le p < 2 ^ 31"
  shows "\<exists>vs. addEdge_p p x = Some (p\<lparr>p_e := vs, p_le := p_le p + 1\<rparr>)
           \<and> nat (p_le p) < length vs \<and> take (nat (p_le p)) vs = take (nat (p_le p)) (p_e p)
           \<and> vs ! nat (p_le p) = x"
proof -
  note g1 = grow_update(1)[OF assms, where d=None]
  note g = grow_update(2-4)[OF assms, where d=None and x=x]
  have "addEdge_p p x = Some (p\<lparr>p_e := (if unsigned (p_le p) = length (p_e p)
                then p_e p @ replicate (length (p_e p) * 2 - length (p_e p)) None
                else p_e p)[nat (p_le p) := x], p_le := p_le p + 1\<rparr>)"
    using g1 assms(1) unfolding addEdge_p_def Let_def by simp
  with g show ?thesis by blast
qed

lemma removeVertex_p_take:
  assumes "1 \<le> p_l p" "p_l p \<le> int (length (p_v p))" "p_l p < 2 ^ 31"
  shows "p_l (removeVertex_p p) = p_l p - 1
         \<and> p_l p - 1 \<le> int (length (p_v (removeVertex_p p)))
         \<and> take (nat (p_l p - 1)) (p_v (removeVertex_p p)) = take (nat (p_l p - 1)) (p_v p)
         \<and> p_le (removeVertex_p p) = p_le p \<and> p_e (removeVertex_p p) = p_e p"
  using assms by (auto simp: removeVertex_p_def Let_def unsigned_id min_def)

lemma removeEdge_p_take:
  assumes "1 \<le> p_le p" "p_le p \<le> int (length (p_e p))" "p_le p < 2 ^ 31"
  shows "p_le (removeEdge_p p) = p_le p - 1
         \<and> p_le p - 1 \<le> int (length (p_e (removeEdge_p p)))
         \<and> take (nat (p_le p - 1)) (p_e (removeEdge_p p)) = take (nat (p_le p - 1)) (p_e p)
         \<and> p_l (removeEdge_p p) = p_l p \<and> p_v (removeEdge_p p) = p_v p"
  using assms by (auto simp: removeEdge_p_def Let_def unsigned_id min_def)

text \<open>
  C6: on a well-formed path and for a live candidate edge, \<^verbatim>\<open>consistent(edge)\<close> returns, the
  vertices and the edges the path lists and both counters are afterwards what they were
  before the call, whatever the result, and the result is false when the candidate or its
  mirror record is one of the path's edges. (The allocated size of the vectors may differ.)
\<close>

theorem consistent_e_leaves_path:
  assumes wf: "Path_wf es p" and e: "deref es e = Some ed"
  shows "\<exists>r p'. consistent_e es p e = Some (r, p')
           \<and> getVertices p' = getVertices p \<and> getEdges p' = getEdges p
           \<and> len p' = len p \<and> lenE p' = lenE p
           \<and> ((\<exists>i < nat (p_le p). p_e p ! i = e \<or> p_e p ! i = e_adjRef ed) \<longrightarrow> \<not> r)"
proof -
  let ?present = "\<exists>i < nat (p_le p). p_e p ! i = e \<or> p_e p ! i = e_adjRef ed"
  from wf have b: "0 \<le> p_l p" "p_l p \<le> int (length (p_v p))" "0 \<le> p_le p"
      "p_le p \<le> int (length (p_e p))" "0 < length (p_v p)" "0 < length (p_e p)"
      "p_l p < 2 ^ 31 - 1" "p_le p < 2 ^ 31 - 1"
    and d: "\<forall>i < nat (p_le p). deref es (p_e p ! i) \<noteq> None"
    by (simp_all add: Path_wf_def del: length_greater_0_conv)
  have inp: "inPath es p e = Some ?present" by (rule inPath_total[OF e b(4)])
  show ?thesis
  proof (cases ?present)
    case True
    with inp show ?thesis by (auto simp: consistent_e_def)
  next
    case False
    from addEdge_p_Some[of p e] b obtain es1 where
      a1: "addEdge_p p e = Some (p\<lparr>p_e := es1, p_le := p_le p + 1\<rparr>)"
      and l1: "nat (p_le p) < length es1"
      and t1: "take (nat (p_le p)) es1 = take (nat (p_le p)) (p_e p)"
      and n1: "es1 ! nat (p_le p) = e" by auto
    define p1 where "p1 = p\<lparr>p_e := es1, p_le := p_le p + 1\<rparr>"
    have p1: "p_l p1 = p_l p" "p_v p1 = p_v p" "p_le p1 = p_le p + 1" "p_e p1 = es1"
      by (simp_all add: p1_def)
    from addVertex_p_Some[of p1 "e_adj ed"] b p1 obtain vs1 where
      a2: "addVertex_p p1 (e_adj ed) = Some (p1\<lparr>p_v := vs1, p_l := p_l p + 1\<rparr>)"
      and l2: "nat (p_l p) < length vs1"
      and t2: "take (nat (p_l p)) vs1 = take (nat (p_l p)) (p_v p)" by auto
    define p2 where "p2 = p1\<lparr>p_v := vs1, p_l := p_l p + 1\<rparr>"
    have p2: "p_l p2 = p_l p + 1" "p_v p2 = vs1" "p_le p2 = p_le p + 1" "p_e p2 = es1"
      by (simp_all add: p2_def p1)
    have pre1: "es1 ! k = p_e p ! k" if "k < nat (p_le p)" for k
      using that t1 by (metis nth_take)
    have v2: "\<forall>k < nat (p_le p2). k < length (p_e p2) \<and> deref es (p_e p2 ! k) \<noteq> None"
    proof (intro allI impI)
      fix k assume "k < nat (p_le p2)"
      then have k: "k \<le> nat (p_le p)" using b by (simp add: p2)
      show "k < length (p_e p2) \<and> deref es (p_e p2 ! k) \<noteq> None"
      proof (cases "k = nat (p_le p)")
        case True then show ?thesis using l1 e n1 by (simp add: p2)
      next
        case False
        with k have "k < nat (p_le p)" by simp
        then show ?thesis using l1 d pre1 by (simp add: p2)
      qed
    qed
    from consistent_total[OF v2] obtain r where r: "consistent es p2 = Some r" by auto
    let ?q = "removeEdge_p p2"
    let ?p' = "removeVertex_p ?q"
    have res: "consistent_e es p e = Some (r, ?p')"
      using inp False a1 a2 r e by (simp add: consistent_e_def p1_def[symmetric] p2_def[symmetric])
    have q: "p_le ?q = p_le p" "p_le p \<le> int (length (p_e ?q))"
       "take (nat (p_le p)) (p_e ?q) = take (nat (p_le p)) es1" "p_l ?q = p_l p + 1" "p_v ?q = vs1"
      using removeEdge_p_take[of p2] b l1 by (simp_all add: p2)
    have q': "p_l ?p' = p_l p" "p_l p \<le> int (length (p_v ?p'))"
       "take (nat (p_l p)) (p_v ?p') = take (nat (p_l p)) vs1" "p_le ?p' = p_le ?q" "p_e ?p' = p_e ?q"
      using removeVertex_p_take[of ?q] b l2 q by simp_all
    have lens: "len ?p' = len p" "lenE ?p' = lenE p"
      by (simp_all add: len_def lenE_def q q')
    have ge: "getEdges ?p' = getEdges p"
      using b q q' t1 by (simp add: getEdges_def resize_le)
    have gv: "getVertices ?p' = getVertices p"
      using b q q' t2 by (simp add: getVertices_def resize_le)
    from res lens ge gv False show ?thesis by blast
  qed
qed

theorem consistent_e_leaves_path_witness:
  "Path_wf sample_store sample_path
   \<and> (\<exists>r p'. consistent_e sample_store sample_path (Some 1) = Some (r, p')
          \<and> getVertices p' = getVertices sample_path \<and> getEdges p' = getEdges sample_path
          \<and> len p' = len sample_path \<and> lenE p' = lenE sample_path \<and> \<not> r)"
proof -
  have d: "deref sample_store (Some 1) =
       Some \<lparr>e_adj = Some 0, e_adjRef = Some 0, e_label = Some ''a'',
             e_ex1 = Extremity 2 TAIL, e_ex2 = Extremity 1 TAIL, e_sibling = None\<rparr>"
    by (simp add: sample_store_def deref_def)
  have h: "\<exists>i < nat (p_le sample_path). p_e sample_path ! i = Some 1
             \<or> p_e sample_path ! i = e_adjRef \<lparr>e_adj = Some 0, e_adjRef = Some 0,
                  e_label = Some ''a'', e_ex1 = Extremity 2 TAIL, e_ex2 = Extremity 1 TAIL,
                  e_sibling = None\<rparr>"
    by (simp add: sample_path_def)
  from consistent_e_leaves_path [OF sample_path_wf d] h sample_path_wf
  show ?thesis by blast
qed

section \<open>Lookups and the index guard of addEdge\<close>

lemma replicate_4: "replicate 4 x = [x, x, x, x]"
  by (simp add: numeral_eq_Suc)

lemma one_vertex_graph_built:
  "\<exists>g0. Graph_new None 4 = Some g0
     \<and> addVertex_id g0 0 (Some ''a'') 1 0 = Some (Some 0, one_vertex_graph)"
  by (simp add: Graph_new_def addVertex_id_def vec_at_def label_copy_def resize_def
      Vertex_new_def one_vertex_graph_def Let_def GRAPH_MAX_LABEL_def replicate_4
      grow_size.simps)

lemma one_vertex_graph_wf: "Graph_wf one_vertex_graph"
  by (simp add: Graph_wf_def one_vertex_graph_def Vertex_new_def less_Suc_eq nth_Cons'
      numeral_eq_Suc)

lemma getVertex_label_loop_absent:
  assumes "\<forall>i \<in> set is. i < length (g_vertices g)"
    and "\<forall>k v. vderef g (Some k) = Some v \<longrightarrow>
                (\<exists>l. v_label v = Some l \<and> \<not> strncmp_eq l q GRAPH_MAX_LABEL)"
  shows "getVertex_label_loop g q is = Some None"
  using assms(1)
proof (induction "is")
  case Nil
  then show ?case by simp
next
  case (Cons i "is")
  then have i: "i < length (g_vertices g)" and ih: "getVertex_label_loop g q is = Some None"
    by simp_all
  show ?case
  proof (cases "g_vertices g ! i")
    case None
    with i ih show ?thesis by (simp add: vec_at_def)
  next
    case (Some v)
    with i have "vderef g (Some i) = Some v" by (simp add: vderef_def)
    with assms(2) obtain l where "v_label v = Some l" "\<not> strncmp_eq l q GRAPH_MAX_LABEL"
      by blast
    with Some i ih show ?thesis by (simp add: vec_at_def)
  qed
qed

text \<open>
  Where the lookups do return NULL: in a well-formed graph, \<^verbatim>\<open>getVertex(id)\<close> for an id
  inside the vector (\<open>0 \<le> id < maxn\<close>) that no live vertex carries, and
  \<^verbatim>\<open>getVertex(label)\<close> for a string that differs, within its first 100 characters, from the
  label of every live vertex, in a graph all of whose live vertices have a label.
\<close>

lemma getVertex_absent:
  assumes "Graph_wf g"
  shows "(0 \<le> i \<and> i < g_maxn g \<and> (\<forall>k v. vderef g (Some k) = Some v \<longrightarrow> v_id v \<noteq> i)
            \<longrightarrow> getVertex g i = Some None)
         \<and> ((\<forall>k v. vderef g (Some k) = Some v \<longrightarrow>
                (\<exists>l. v_label v = Some l \<and> \<not> strncmp_eq l q GRAPH_MAX_LABEL))
            \<longrightarrow> getVertex_label g q = Some None)"
proof (intro conjI impI)
  assume a: "0 \<le> i \<and> i < g_maxn g \<and> (\<forall>k v. vderef g (Some k) = Some v \<longrightarrow> v_id v \<noteq> i)"
  from assms have len: "length (g_vertices g) = nat (g_maxn g)"
    and ids: "\<forall>k < length (g_vertices g). \<forall>v. g_vertices g ! k = Some v \<longrightarrow> v_id v = int k"
    by (simp_all add: Graph_wf_def)
  from a len have lt: "nat i < length (g_vertices g)" by simp
  have "g_vertices g ! nat i = None"
  proof (cases "g_vertices g ! nat i")
    case (Some v)
    with ids lt have "v_id v = int (nat i)" by blast
    moreover from Some lt have "vderef g (Some (nat i)) = Some v" by (simp add: vderef_def)
    ultimately show ?thesis using a by auto
  qed simp
  with a lt show "getVertex g i = Some None"
    by (simp add: getVertex_def vec_at_def)
next
  assume b: "\<forall>k v. vderef g (Some k) = Some v \<longrightarrow>
                (\<exists>l. v_label v = Some l \<and> \<not> strncmp_eq l q GRAPH_MAX_LABEL)"
  from assms have "g_lastVid g < g_maxn g" "length (g_vertices g) = nat (g_maxn g)"
    by (simp_all add: Graph_wf_def)
  then have "\<forall>i \<in> set [0..<nat (g_lastVid g + 1)]. i < length (g_vertices g)" by auto
  from getVertex_label_loop_absent[OF this b] show "getVertex_label g q = Some None"
    by (simp add: getVertex_label_def)
qed

text \<open>
  C8 fails on the code. A vertex added without a label keeps the NULL label, and
  \<^verbatim>\<open>getVertex(label)\<close> hands the label of every live vertex to \<^verbatim>\<open>strncmp\<close> unguarded: on the
  graph with one unlabelled vertex the lookup of \<open>b\<close>, a label no vertex carries, reads
  through the NULL pointer instead of returning NULL. Likewise \<^verbatim>\<open>getVertex(id)\<close> is the bare
  read \<^verbatim>\<open>vertices[id]\<close>: for the ids 4 and \<open>-1\<close>, ids of no live vertex of a graph of capacity
  4, it reads outside the vector. (The outer \<open>None\<close> is the read that has no value; the NULL
  result is \<open>Some None\<close>.)
\<close>

theorem getVertex_label_reads_null_label:
  "(\<exists>g0. Graph_new None 4 = Some g0
         \<and> addVertex_id g0 0 None 0 0 = Some (Some 0, unlabelled_graph))
   \<and> getVertex_label unlabelled_graph ''b'' = None
   \<and> g_maxn one_vertex_graph = 4 \<and> length (g_vertices one_vertex_graph) = 4
   \<and> getVertex one_vertex_graph 4 = None \<and> getVertex one_vertex_graph (- 1) = None"
proof -
  have "\<exists>g0. Graph_new None 4 = Some g0
         \<and> addVertex_id g0 0 None 0 0 = Some (Some 0, unlabelled_graph)"
    by (simp add: Graph_new_def addVertex_id_def vec_at_def label_copy_def resize_def
        Vertex_new_def unlabelled_graph_def Let_def replicate_4 grow_size.simps)
  moreover have "getVertex_label unlabelled_graph ''b'' = None"
    by (simp add: getVertex_label_def unlabelled_graph_def vec_at_def Vertex_new_def)
  moreover have "g_maxn one_vertex_graph = 4 \<and> length (g_vertices one_vertex_graph) = 4
      \<and> getVertex one_vertex_graph 4 = None \<and> getVertex one_vertex_graph (- 1) = None"
    by (simp add: one_vertex_graph_def getVertex_def vec_at_def)
  ultimately show ?thesis by blast
qed

text \<open>
  C9 fails on the code: with \<^verbatim>\<open>maxn = 4\<close> the guard \<^verbatim>\<open>id1 >= maxn || id2 > maxn\<close> lets
  \<^verbatim>\<open>id2 = 4\<close> through, and \<^verbatim>\<open>addEdge(0, 4)\<close> reads \<^verbatim>\<open>vertices[4]\<close>, one past the vector.
\<close>

theorem addEdge_id_guard_misses_capacity:
  "g_maxn one_vertex_graph = 4 \<and> length (g_vertices one_vertex_graph) = 4
   \<and> getVertex one_vertex_graph 0 = Some (Some 0)
   \<and> addEdge_id one_vertex_graph 0 4 None = None"
  by (simp add: one_vertex_graph_def addEdge_id_def getVertex_def vec_at_def)

section \<open>Signatures\<close>

lemma Edge_less_rec_key:
  assumes "edge_key t \<noteq> edge_key ob"
  shows "Edge_less_rec t ob \<longleftrightarrow> edge_key t < edge_key ob"
proof (cases "getType (e_ex1 t) = UNDEF \<or> getType (e_ex1 ob) = UNDEF")
  case True
  with assms show ?thesis
    by (auto simp: Edge_less_rec_def edge_key_def Let_def less_prod_def split: if_splits)
next
  case False
  then have d: "getType (e_ex1 t) \<noteq> UNDEF" "getType (e_ex1 ob) \<noteq> UNDEF" by simp_all
  have tl: "getType (e_ex1 ob) = TAIL" if "getType (e_ex1 t) \<noteq> TAIL"
    "(getType (e_ex1 t) = TAIL) \<noteq> (getType (e_ex1 ob) = TAIL)"
    using that by auto
  show ?thesis
  proof (cases "fst (snd (edge_key t)) = fst (snd (edge_key ob))")
    case False
    with d show ?thesis
      by (auto simp: Edge_less_rec_def edge_key_def Let_def min_def max_def less_prod_def
          split: if_splits)
  next
    case True
    with d assms have "(getType (e_ex1 t) = TAIL) \<noteq> (getType (e_ex1 ob) = TAIL)"
      by (auto simp: edge_key_def split: if_splits)
    with d True show ?thesis
      by (auto simp: Edge_less_rec_def edge_key_def Let_def min_def max_def less_prod_def
          split: if_splits)
  qed
qed

lemma sortable_less:
  assumes "sortable es xs" "x \<in> set xs" "y \<in> set xs" "x \<noteq> y"
  shows "Edge_less es x y = Some (kless es x y)"
proof -
  from assms(1,2) obtain rx where rx: "deref es x = Some rx"
    by (auto simp: sortable_def)
  from assms(1,3) obtain ry where ry: "deref es y = Some ry"
    and m: "\<forall>z \<in> set xs. y = z \<or> e_adjRef ry \<noteq> z"
    by (fastforce simp: sortable_def)
  from m assms(2,4) have nm: "x \<noteq> e_adjRef ry" by auto
  from assms have "fst (keylab es x) \<noteq> fst (keylab es y)"
    by (auto simp: sortable_def distinct_map inj_on_def)
  with rx ry have k: "edge_key rx \<noteq> edge_key ry" by (simp add: keylab_def)
  show ?thesis
    using assms(4) rx ry nm Edge_less_rec_key[OF k]
    by (simp add: Edge_less_def kless_def keylab_def)
qed

lemma shift_sorted:
  assumes "\<forall>a \<in> set A. Edge_less es x a = Some (kless es x a) \<and> (kless es x a \<or> kless es a x)"
    and "sorted_wrt (kless es) A"
  shows "\<exists>A'. shift es x (A @ h # B) (length A) = Some (A' @ B) \<and> mset A' = mset (x # A)
           \<and> sorted_wrt (kless es) A'"
  using assms
proof (induction A arbitrary: h B rule: rev_induct)
  case Nil
  then show ?case by simp
next
  case (snoc a A)
  have tr: "\<And>u v w. kless es u v \<Longrightarrow> kless es v w \<Longrightarrow> kless es u w"
    by (auto simp: kless_def)
  from snoc.prems have cmp: "Edge_less es x a = Some (kless es x a)" and tot: "kless es x a \<or> kless es a x"
    and rest: "\<forall>b \<in> set A. Edge_less es x b = Some (kless es x b) \<and> (kless es x b \<or> kless es b x)"
    and sA: "sorted_wrt (kless es) A" and lA: "\<forall>b \<in> set A. kless es b a"
    by (auto simp: sorted_wrt_append)
  have nth: "((A @ [a]) @ h # B) ! length A = a" by (simp add: nth_append)
  show ?case
  proof (cases "kless es x a")
    case True
    have upd: "((A @ [a]) @ h # B)[Suc (length A) := a] = A @ a # (a # B)"
      by (simp add: list_update_append)
    from snoc.IH[OF rest sA, of a "a # B"] obtain A' where
      A': "shift es x (A @ a # a # B) (length A) = Some (A' @ a # B)" "mset A' = mset (x # A)"
        "sorted_wrt (kless es) A'" by blast
    have "set A' = insert x (set A)" using A'(2) by (metis list.simps(15) mset_eq_setD)
    with lA True have "\<forall>b \<in> set A'. kless es b a" by auto
    with A'(3) have "sorted_wrt (kless es) (A' @ [a])" by (simp add: sorted_wrt_append)
    moreover have "mset (A' @ [a]) = mset (x # A @ [a])" using A'(2) by simp
    moreover have "shift es x ((A @ [a]) @ h # B) (length (A @ [a])) = Some ((A' @ [a]) @ B)"
      using cmp True nth upd A'(1) by simp
    ultimately show ?thesis by blast
  next
    case False
    with tot have ax: "kless es a x" by simp
    have upd: "((A @ [a]) @ h # B)[Suc (length A) := x] = (A @ [a, x]) @ B"
      by (simp add: list_update_append)
    have "\<forall>b \<in> set A. kless es b x" using lA ax tr by blast
    with sA lA ax have "sorted_wrt (kless es) (A @ [a, x])" by (auto simp: sorted_wrt_append)
    moreover have "mset (A @ [a, x]) = mset (x # A @ [a])" by simp
    moreover have "shift es x ((A @ [a]) @ h # B) (length (A @ [a])) = Some ((A @ [a, x]) @ B)"
      using cmp False nth upd by simp
    ultimately show ?thesis by blast
  qed
qed

lemma sortable_cmp:
  assumes "sortable es xs" "x \<in> set xs" "a \<in> set xs" "x \<noteq> a"
  shows "Edge_less es x a = Some (kless es x a) \<and> (kless es x a \<or> kless es a x)"
proof -
  from assms have "fst (keylab es x) \<noteq> fst (keylab es a)"
    by (auto simp: sortable_def distinct_map inj_on_def)
  then have "kless es x a \<or> kless es a x" by (auto simp: kless_def)
  with sortable_less[OF assms] show ?thesis by simp
qed

lemma sort_loop_sorted:
  assumes "sortable es xs" "mset (A @ C) = mset xs" "sorted_wrt (kless es) A"
  shows "\<exists>S. sort_loop es (A @ C) [length A..<length (A @ C)] = Some S \<and> mset S = mset xs
           \<and> sorted_wrt (kless es) S"
  using assms(2,3)
proof (induction C arbitrary: A)
  case Nil
  then show ?case by simp
next
  case (Cons c C)
  have d: "distinct xs" using assms(1) by (auto simp: sortable_def distinct_map)
  then have dAC: "distinct (A @ c # C)" using Cons.prems(1) by (metis distinct_count_atmost_1 count_mset_0_iff mset_eq_imp_distinct_iff)
  have sub: "set (A @ c # C) = set xs" using Cons.prems(1) by (metis mset_eq_setD)
  have "\<forall>a \<in> set A. Edge_less es c a = Some (kless es c a) \<and> (kless es c a \<or> kless es a c)"
  proof
    fix a assume "a \<in> set A"
    with dAC sub have "c \<in> set xs" "a \<in> set xs" "c \<noteq> a" by auto
    from sortable_cmp[OF assms(1) this] show "Edge_less es c a = Some (kless es c a) \<and> (kless es c a \<or> kless es a c)" .
  qed
  from shift_sorted[OF this Cons.prems(2), of c C] obtain A' where
    A': "shift es c (A @ c # C) (length A) = Some (A' @ C)" "mset A' = mset (c # A)"
      "sorted_wrt (kless es) A'" by blast
  have len: "length A' = Suc (length A)" using A'(2) by (metis length_Cons size_mset)
  have "mset (A' @ C) = mset xs" using A'(2) Cons.prems(1) by simp
  from Cons.IH[OF this A'(3)] obtain S where
    S: "sort_loop es (A' @ C) [length A'..<length (A' @ C)] = Some S" "mset S = mset xs"
      "sorted_wrt (kless es) S" by blast
  have "[length A..<length (A @ c # C)] = length A # [length A'..<length (A' @ C)]"
    using len by (simp add: upt_rec)
  moreover have "(A @ c # C) ! length A = c" by simp
  ultimately show ?case using A'(1) S by simp
qed

lemma sort_loop_all:
  assumes "sortable es xs"
  shows "\<exists>S. sort_loop es xs [1..<length xs] = Some S \<and> mset S = mset xs
           \<and> sorted_wrt (kless es) S"
proof (cases xs)
  case Nil
  then show ?thesis by simp
next
  case (Cons x xs')
  have "sorted_wrt (kless es) [x]" by simp
  from sort_loop_sorted[OF assms, of "[x]" xs'] Cons show ?thesis by simp
qed

lemma append_labels_map:
  assumes "\<forall>x \<in> set xs. \<exists>r l. deref es x = Some r \<and> e_label r = Some l \<and> length l \<le> GRAPH_MAX_LABEL"
  shows "append_labels es xs s = Some (s @ concat (map (\<lambda>x. snd (keylab es x)) xs))"
  using assms
proof (induction xs arbitrary: s)
  case Nil
  then show ?case by simp
next
  case (Cons x xs)
  then obtain r l where "deref es x = Some r" "e_label r = Some l" "length l \<le> GRAPH_MAX_LABEL"
    by auto
  then have "getLabel_str es x = Some l" "snd (keylab es x) = l"
    by (simp_all add: getLabel_str_def keylab_def)
  with Cons show ?case by simp
qed

lemma strict_sorted_unique:
  fixes xs ys :: "('k::linorder \<times> 'b) list"
  assumes "mset xs = mset ys" "sorted_wrt (\<lambda>a b. fst a < fst b) xs"
    "sorted_wrt (\<lambda>a b. fst a < fst b) ys"
  shows "xs = ys"
  using assms
proof (induction xs arbitrary: ys)
  case Nil
  then show ?case by simp
next
  case (Cons x xs)
  then obtain y ys' where ys: "ys = y # ys'" by (cases ys) auto
  have "x = y"
  proof (rule ccontr)
    assume ne: "x \<noteq> y"
    from Cons.prems(1) ys have "x \<in> set ys" "y \<in> set (x # xs)"
      by (metis list.set_intros(1) mset_eq_setD)+
    with ne ys have "x \<in> set ys'" "y \<in> set xs" by auto
    with Cons.prems(2,3) ys have "fst y < fst x" "fst x < fst y" by auto
    then show False by simp
  qed
  with Cons.prems ys have "mset xs = mset ys'" "sorted_wrt (\<lambda>a b. fst a < fst b) xs"
    "sorted_wrt (\<lambda>a b. fst a < fst b) ys'" by auto
  from Cons.IH[OF this] \<open>x = y\<close> ys show ?case by simp
qed

lemma signature_sorted:
  assumes "signature_ready es p"
  shows "\<exists>S. signature es p = Some (concat (map (\<lambda>x. snd (keylab es x)) S))
           \<and> mset S = mset (take (nat (p_le p)) (p_e p)) \<and> sorted_wrt (kless es) S"
proof -
  let ?xs = "take (nat (p_le p)) (p_e p)"
  from assms have b: "0 \<le> p_le p" "p_le p \<le> int (length (p_e p))" and s: "sortable es ?xs"
    by (simp_all add: signature_ready_def)
  from b have len: "length ?xs = nat (p_le p)" by simp
  from sort_loop_all[OF s] len obtain S where
    S: "sort_loop es ?xs [1..<nat (p_le p)] = Some S" "mset S = mset ?xs" "sorted_wrt (kless es) S"
    by auto
  have "set S = set ?xs" using S(2) by (metis mset_eq_setD)
  with s have "\<forall>x \<in> set S. \<exists>r l. deref es x = Some r \<and> e_label r = Some l \<and> length l \<le> GRAPH_MAX_LABEL"
    by (fastforce simp: sortable_def)
  from append_labels_map[OF this, of "[]"] S b show ?thesis
    by (auto simp: signature_def)
qed

lemma upt_1_2: "[1..<nat 2] = [1]"
  by (simp add: upt_rec)

text \<open>
  C7 (as the code has it): \<^verbatim>\<open>signature()\<close> sorts the path's edge records by
  \<^verbatim>\<open>Edge::operator<\<close>, which reads the extremities, and concatenates their labels in that
  order. For a path whose edge records are live, carry a label of at most 100 characters,
  do not include the two mirror records of one edge and have pairwise different sort keys
  (no two are tied under \<^verbatim>\<open>operator<\<close>), the result is the labels in increasing order of the
  sort keys. So two such cycles, of one graph or of two, get the same string when their edges
  carry the same multiset of (sort key, label) combinations; and when they are cycles of one
  graph, the dedup loop that meets the first keeps no copy of the second, whatever vertices
  and edge records the two run through.
\<close>

theorem signature_by_keys:
  assumes "signature_ready es p" "signature_ready es' q"
    and "mset (map (keylab es) (take (nat (p_le p)) (p_e p)))
         = mset (map (keylab es') (take (nat (p_le q)) (p_e q)))"
  shows "signature es p = signature es' q
         \<and> (\<exists>S. signature es p = Some (concat (map (\<lambda>x. snd (keylab es x)) S))
                \<and> mset S = mset (take (nat (p_le p)) (p_e p)) \<and> sorted_wrt (kless es) S)
         \<and> (es' = es \<longrightarrow>
              (\<exists>s. signature es p = Some s
                 \<and> dedup_loop es [p, q] (sigs, cycles)
                     = Some (insert s sigs, if s \<in> sigs then cycles else p # cycles)))"
proof -
  from signature_sorted[OF assms(1)] obtain S where
    S: "signature es p = Some (concat (map (\<lambda>x. snd (keylab es x)) S))"
      "mset S = mset (take (nat (p_le p)) (p_e p))" "sorted_wrt (kless es) S" by blast
  from signature_sorted[OF assms(2)] obtain T where
    T: "signature es' q = Some (concat (map (\<lambda>x. snd (keylab es' x)) T))"
      "mset T = mset (take (nat (p_le q)) (p_e q))" "sorted_wrt (kless es') T" by blast
  have "mset (map (keylab es) S) = mset (map (keylab es') T)"
    using S(2) T(2) assms(3) by (metis mset_map)
  moreover have "sorted_wrt (\<lambda>a b. fst a < fst b) (map (keylab es) S)"
    using S(3) by (simp add: sorted_wrt_map kless_def[abs_def])
  moreover have "sorted_wrt (\<lambda>a b. fst a < fst b) (map (keylab es') T)"
    using T(3) by (simp add: sorted_wrt_map kless_def[abs_def])
  ultimately have "map (keylab es) S = map (keylab es') T" by (rule strict_sorted_unique)
  then have "map snd (map (keylab es) S) = map snd (map (keylab es') T)" by simp
  then have "map (\<lambda>x. snd (keylab es x)) S = map (\<lambda>x. snd (keylab es' x)) T"
    by (simp add: comp_def)
  with S(1) T(1) have eq: "signature es p = signature es' q" by simp
  moreover from S have "\<exists>S. signature es p = Some (concat (map (\<lambda>x. snd (keylab es x)) S))
                \<and> mset S = mset (take (nat (p_le p)) (p_e p)) \<and> sorted_wrt (kless es) S"
    by blast
  moreover have "\<exists>s. signature es p = Some s
                 \<and> dedup_loop es [p, q] (sigs, cycles)
                     = Some (insert s sigs, if s \<in> sigs then cycles else p # cycles)"
    if "es' = es"
  proof -
    from S(1) obtain s where s: "signature es p = Some s" by blast
    with eq that have "signature es q = Some s" by simp
    with s show ?thesis by (simp add: insert_absorb)
  qed
  ultimately show ?thesis by blast
qed

text \<open>
  The theorem at two cycles of one graph on disjoint vertices and edge records, and the
  readiness of the cycle whose two edges join the same two genes, tail to tail and head to
  head.
\<close>

theorem signature_by_keys_witness:
  "signature_ready twin_store sample_cycle \<and> signature_ready twin_store twin_cycle
   \<and> signature twin_store sample_cycle = Some ''xy''
   \<and> signature twin_store twin_cycle = Some ''xy''
   \<and> dedup_loop twin_store [sample_cycle, twin_cycle] ({}, []) = Some ({''xy''}, [sample_cycle])
   \<and> signature_ready sample_store sample_cycle"
proof -
  have t: "take (nat 2) [Some (0::nat), Some 2, None, None] = [Some 0, Some 2]"
    "take (nat 2) [Some (4::nat), Some 6, None, None] = [Some 4, Some 6]"
    by (simp_all add: numeral_2_eq_2)
  have 1: "signature_ready twin_store sample_cycle"
    by (simp add: signature_ready_def sample_cycle_def t sortable_def twin_store_def deref_def
        keylab_def edge_key_def GRAPH_MAX_LABEL_def)
  have 2: "signature_ready twin_store twin_cycle"
    by (simp add: signature_ready_def twin_cycle_def t sortable_def twin_store_def deref_def
        keylab_def edge_key_def GRAPH_MAX_LABEL_def)
  have 3: "mset (map (keylab twin_store) (take (nat (p_le sample_cycle)) (p_e sample_cycle)))
         = mset (map (keylab twin_store) (take (nat (p_le twin_cycle)) (p_e twin_cycle)))"
    by (simp add: sample_cycle_def twin_cycle_def t twin_store_def deref_def
        keylab_def edge_key_def)
  have 4: "signature twin_store sample_cycle = Some ''xy''"
    by (simp add: signature_def sample_cycle_def twin_store_def upt_1_2
        Edge_less_def Edge_less_rec_def deref_def getLabel_str_def GRAPH_MAX_LABEL_def
        numeral_2_eq_2)
  have 5: "signature_ready sample_store sample_cycle"
    by (simp add: signature_ready_def sample_cycle_def t sortable_def sample_store_def deref_def
        keylab_def edge_key_def GRAPH_MAX_LABEL_def)
  note th = signature_by_keys [OF 1 2 3, of "{}" "[]"]
  from th have e: "signature twin_store sample_cycle = signature twin_store twin_cycle"
    by (rule conjunct1)
  from th obtain s where s: "signature twin_store sample_cycle = Some s"
    "dedup_loop twin_store [sample_cycle, twin_cycle] ({}, [])
       = Some (insert s {}, if s \<in> {} then [] else [sample_cycle])"
    by blast
  from s(1) 4 have "s = ''xy''" by simp
  with s(2) have "dedup_loop twin_store [sample_cycle, twin_cycle] ({}, [])
       = Some ({''xy''}, [sample_cycle])" by simp
  with 1 2 4 5 e show ?thesis by simp
qed

text \<open>
  C7 as stated fails: in two graphs whose cycles carry the same edge labels \<open>x\<close> and \<open>y\<close>, on
  exchanged gene-id pairs, the same walk has the signatures \<open>xy\<close> and \<open>yx\<close>. And where two
  edges are tied under \<^verbatim>\<open>operator<\<close> (the same two genes, a tail first in each record), the
  string depends on the order of the walk: one cycle read in its two directions has the
  signatures \<open>yx\<close> and \<open>xy\<close>.
\<close>

theorem signature_labels_counterexample:
  "signature store_xy sample_cycle = Some ''xy'' \<and> signature store_yx sample_cycle = Some ''yx''
   \<and> path_labels store_xy sample_cycle = path_labels store_yx sample_cycle
   \<and> signature store_tie sample_cycle = Some ''yx''
   \<and> signature store_tie sample_cycle_rev = Some ''xy''"
  by (simp add: signature_def sample_cycle_def sample_cycle_rev_def store_xy_def store_yx_def
      store_tie_def upt_1_2 Edge_less_def Edge_less_rec_def deref_def getLabel_str_def
      GRAPH_MAX_LABEL_def path_labels_def numeral_2_eq_2)

section \<open>The copy constructor\<close>

text \<open>
  C4 fails on the code: in the graph \<open>sibling_graph\<close> the edge from 2 to 3 (records 2 and 3)
  lies on the extremities \<open>1h-2h\<close> and is the sibling of the edge from 0 to 1 on \<open>1t-2t\<close>; in
  the copy the edge from 2 to 3 lies on \<open>1t-2t\<close>, the extremities of its sibling.
\<close>

theorem Graph_copy_sibling_extremities:
  "map_option edge_view sibling_graph =
     Some [Some (Some 1, Extremity 1 TAIL, Extremity 2 TAIL, Some 2),
           Some (Some 0, Extremity 2 TAIL, Extremity 1 TAIL, Some 2),
           Some (Some 3, Extremity 1 HEAD, Extremity 2 HEAD, Some 0),
           Some (Some 2, Extremity 2 HEAD, Extremity 1 HEAD, Some 0)]
   \<and> map_option edge_view (sibling_graph \<bind> Graph_copy) =
     Some [Some (Some 1, Extremity 1 TAIL, Extremity 2 TAIL, Some 2),
           Some (Some 0, Extremity 2 TAIL, Extremity 1 TAIL, Some 2),
           Some (Some 3, Extremity 1 TAIL, Extremity 2 TAIL, Some 0),
           Some (Some 2, Extremity 2 TAIL, Extremity 1 TAIL, Some 0)]"
  by code_simp


section \<open>Per-part vertex counters (graph.cpp, Graph::addVertex, removeVertex, partSize)\<close>

subsection \<open>Frame: what leaves the slots and the counts alone\<close>

lemma same_slots_refl [simp]: "same_slots g g"
  by (simp add: same_slots_def)

lemma same_slots_trans: "same_slots g g1 \<Longrightarrow> same_slots g1 g2 \<Longrightarrow> same_slots g g2"
  by (simp add: same_slots_def)

lemma same_slots_length:
  assumes "same_slots g g'"
  shows "length (g_vertices g') = length (g_vertices g)"
proof -
  from assms have "length (map (map_option (\<lambda>v. (v_id v, v_part v))) (g_vertices g'))
      = length (map (map_option (\<lambda>v. (v_id v, v_part v))) (g_vertices g))"
    by (simp only: same_slots_def)
  then show ?thesis by simp
qed

lemma same_slots_vderef:
  assumes "same_slots g g'"
  shows "map_option (\<lambda>v. (v_id v, v_part v)) (vderef g' p) = map_option (\<lambda>v. (v_id v, v_part v)) (vderef g p)"
proof (cases p)
  case None
  then show ?thesis by (simp add: vderef_def)
next
  case (Some k)
  from assms have m: "map (map_option (\<lambda>v. (v_id v, v_part v))) (g_vertices g')
        = map (map_option (\<lambda>v. (v_id v, v_part v))) (g_vertices g)"
    and l: "length (g_vertices g') = length (g_vertices g)"
    by (simp_all add: same_slots_def same_slots_length[OF assms])
  show ?thesis
  proof (cases "k < length (g_vertices g)")
    case True
    with m l have "map (map_option (\<lambda>v. (v_id v, v_part v))) (g_vertices g') ! k
        = map (map_option (\<lambda>v. (v_id v, v_part v))) (g_vertices g) ! k" by simp
    with True l Some show ?thesis by (simp add: vderef_def)
  next
    case False
    with l Some show ?thesis by (simp add: vderef_def)
  qed
qed

lemma part_count_map:
  "part_count g p = int (length (filter (\<lambda>c. c = Some p) (map (map_option v_part) (g_vertices g))))"
proof -
  have "filter (\<lambda>c. case c of None \<Rightarrow> False | Some v \<Rightarrow> v_part v = p) (g_vertices g)
      = filter ((\<lambda>c. c = Some p) \<circ> map_option v_part) (g_vertices g)"
    by (rule filter_cong) (auto split: option.splits)
  moreover have "length (filter (\<lambda>c. c = Some p) (map (map_option v_part) (g_vertices g)))
      = length (filter ((\<lambda>c. c = Some p) \<circ> map_option v_part) (g_vertices g))"
    by (simp only: filter_map length_map)
  ultimately show ?thesis by (simp only: part_count_def)
qed

lemma same_slots_counts:
  assumes "same_slots g g'"
  shows "partSize g' p = partSize g p" "part_count g' p = part_count g p"
proof -
  from assms have "map (map_option (\<lambda>v. (v_id v, v_part v))) (g_vertices g')
        = map (map_option (\<lambda>v. (v_id v, v_part v))) (g_vertices g)" by (simp add: same_slots_def)
  then have "map (map_option snd) (map (map_option (\<lambda>v. (v_id v, v_part v))) (g_vertices g'))
        = map (map_option snd) (map (map_option (\<lambda>v. (v_id v, v_part v))) (g_vertices g))" by simp
  then have "map (map_option v_part) (g_vertices g') = map (map_option v_part) (g_vertices g)"
    by (simp add: option.map_comp comp_def)
  then show "part_count g' p = part_count g p" by (simp add: part_count_map)
  from assms show "partSize g' p = partSize g p" by (simp add: partSize_def same_slots_def)
qed

lemma same_slots_npart_ok:
  assumes "same_slots g g'"
  shows "npart_ok g' = npart_ok g"
  unfolding npart_ok_def by (simp only: same_slots_counts[OF assms])

lemma vstore_same_slots:
  assumes "vderef g (Some k) = Some v" "v_id v' = v_id v" "v_part v' = v_part v"
  shows "same_slots g (vstore g k v')"
proof -
  from assms(1) have k: "k < length (g_vertices g)" "g_vertices g ! k = Some v"
    by (auto simp: vderef_def split: if_splits)
  have "map (map_option (\<lambda>v. (v_id v, v_part v))) ((g_vertices g)[k := Some v'])
      = (map (map_option (\<lambda>v. (v_id v, v_part v))) (g_vertices g))[k := Some (v_id v, v_part v)]"
    using assms by (simp add: map_update)
  also have "\<dots> = map (map_option (\<lambda>v. (v_id v, v_part v))) (g_vertices g)"
  proof -
    have "map (map_option (\<lambda>v. (v_id v, v_part v))) (g_vertices g) ! k = Some (v_id v, v_part v)"
      using k by simp
    then show ?thesis by (metis list_update_id)
  qed
  finally show ?thesis by (simp add: same_slots_def vstore_def)
qed

lemma same_slots_edges_upd [simp]: "same_slots g (g'\<lparr>g_edges := es\<rparr>) = same_slots g g'"
  by (simp add: same_slots_def)

lemma same_slots_m_upd [simp]: "same_slots g (g'\<lparr>g_m := x\<rparr>) = same_slots g g'"
  by (simp add: same_slots_def)

lemma same_slots_m_upd2 [simp]: "same_slots (g\<lparr>g_m := x\<rparr>) g' = same_slots g g'"
  by (simp add: same_slots_def)

lemma estore_upd_same_slots [simp]: "same_slots g (estore_upd g' a e) = same_slots g g'"
  by (simp add: estore_upd_def)

lemma eupd_same_slots: "eupd g p f = Some g' \<Longrightarrow> same_slots g g'"
  by (auto simp: eupd_def split: option.splits bind_splits)

lemma Edge_setSibling_same_slots: "Edge_setSibling g t e = Some g' \<Longrightarrow> same_slots g g'"
  by (auto simp: Edge_setSibling_def Let_def split: option.splits bind_splits)

lemma Edge_setExtremities_same_slots:
  assumes "Edge_setExtremities g t i1 t1 i2 t2 = Some g'"
  shows "same_slots g g'"
  using assms unfolding Edge_setExtremities_def Let_def
  by (auto split: bind_splits dest!: eupd_same_slots simp: same_slots_def)

lemma Vertex_addEdge_same_slots: "Vertex_addEdge g k adj l = Some (a, g') \<Longrightarrow> same_slots g g'"
  by (auto simp: Vertex_addEdge_def Let_def split: bind_splits intro!: vstore_same_slots)

lemma Vertex_removeEdge_same_slots: "Vertex_removeEdge g vp ep = Some g' \<Longrightarrow> same_slots g g'"
  by (auto simp: Vertex_removeEdge_def Let_def split: bind_splits option.splits intro!: vstore_same_slots)

lemma addEdge_same_slots:
  assumes "addEdge g v1 v2 l = Some (r, g')"
  shows "same_slots g g'"
proof (cases "\<exists>k1 k2. v1 = Some k1 \<and> v2 = Some k2 \<and> v1 \<noteq> v2")
  case False
  with assms show ?thesis by (auto simp: addEdge_def split: option.splits if_splits)
next
  case True
  then obtain k1 k2 where v: "v1 = Some k1" "v2 = Some k2" "v1 \<noteq> v2" by blast
  with assms obtain e1 g1 e2 g2 where
    1: "Vertex_addEdge (g\<lparr>g_m := g_m g + 1\<rparr>) k1 v2 l = Some (e1, g1)"
    and 2: "Vertex_addEdge g1 k2 v1 l = Some (e2, g2)"
    and 3: "same_slots g2 g'"
    by (auto simp: addEdge_def Let_def split: bind_splits)
  from Vertex_addEdge_same_slots[OF 1] have "same_slots g g1" by simp
  with Vertex_addEdge_same_slots[OF 2] 3 show ?thesis by (blast intro: same_slots_trans)
qed

lemma addEdge_id_same_slots: "addEdge_id g i1 i2 l = Some (r, g') \<Longrightarrow> same_slots g g'"
  by (auto simp: addEdge_id_def split: if_splits bind_splits dest: addEdge_same_slots)

lemma removeEdge_same_slots:
  assumes "removeEdge g e = Some g'"
  shows "same_slots g g'"
  using assms
  by (auto simp: removeEdge_def Let_def same_slots_def split: bind_splits option.splits
      dest!: Edge_setSibling_same_slots Vertex_removeEdge_same_slots)

lemma removeVertex_loop_same_slots:
  assumes "removeVertex_loop g k = Some g'"
  shows "same_slots g g'"
proof (rule removeVertex_loop.raw_induct[where P = "\<lambda>g k g'. same_slots g g'", OF _ assms])
  fix f g k ga
  assume ih: "\<And>g k y. f g k = Some y \<Longrightarrow> same_slots g y"
    and st: "vderef g (Some k) \<bind>
       (\<lambda>v. case v_edges v of [] \<Rightarrow> Some g
          | a # x \<Rightarrow> removeEdge g (Some a) \<bind> (\<lambda>g'. f g' k)) = Some ga"
  from st obtain v where v: "vderef g (Some k) = Some v" by (auto split: bind_splits)
  show "same_slots g ga"
  proof (cases "v_edges v")
    case Nil
    with st v show ?thesis by simp
  next
    case (Cons a as)
    with st v obtain g1 where "removeEdge g (Some a) = Some g1" "f g1 k = Some ga"
      by (auto split: bind_splits)
    with ih removeEdge_same_slots show ?thesis by (blast intro: same_slots_trans)
  qed
qed

lemma fold_opt_same_slots:
  assumes "\<And>x s s'. x \<in> set xs \<Longrightarrow> f x s = Some s' \<Longrightarrow> same_slots s s'"
    and "fold_opt f xs g = Some g'"
  shows "same_slots g g'"
  using assms
proof (induction xs arbitrary: g)
  case Nil
  then show ?case by simp
next
  case (Cons x xs)
  from Cons.prems(2) obtain s where s: "f x g = Some s" "fold_opt f xs s = Some g'"
    by (auto split: bind_splits)
  from Cons.prems(1)[of x g s] s have "same_slots g s" by simp
  moreover have "\<And>y t t'. y \<in> set xs \<Longrightarrow> f y t = Some t' \<Longrightarrow> same_slots t t'"
    using Cons.prems(1) by (meson list.set_intros(2))
  from Cons.IH[OF this s(2)] have "same_slots s g'" .
  ultimately show ?case by (rule same_slots_trans)
qed

lemma removeEdge_ex_edges_same_slots:
  "removeEdge_ex_edges ex1 ex2 as g = Some g' \<Longrightarrow> same_slots g g'"
proof (induction as arbitrary: g)
  case Nil
  then show ?case by simp
next
  case (Cons a as)
  then show ?case
    by (auto split: bind_splits if_splits dest!: removeEdge_same_slots simp: same_slots_def)
qed

lemma removeEdge_ex_same_slots:
  assumes "removeEdge_ex g ex1 ex2 = Some g'"
  shows "same_slots g g'"
proof -
  from assms obtain ks where f: "fold_opt (removeEdge_ex_vertex ex1 ex2) ks g = Some g'"
    by (auto simp: removeEdge_ex_def split: bind_splits)
  show ?thesis
    by (rule fold_opt_same_slots[OF _ f])
      (auto simp: removeEdge_ex_vertex_def split: bind_splits if_splits
        dest: removeEdge_ex_edges_same_slots)
qed

lemma setLabel_same_slots: "same_slots g (setLabel g l)"
  by (simp add: setLabel_def same_slots_def)

lemma setFamilyName_same_slots: "setFamilyName g f nm = Some g' \<Longrightarrow> same_slots g g'"
  by (auto simp: setFamilyName_def same_slots_def split: bind_splits)

lemma sint_char: "sint (p :: 8 word) = (int (unat p) + 128) mod 256 - 128"
proof -
  have "sint p = signed_take_bit 7 (uint p)" by (simp add: sint_uint)
  also have "\<dots> = take_bit 8 (uint p + 2 ^ 7) - 2 ^ 7"
    by (simp add: signed_take_bit_eq_take_bit_shift)
  also have "\<dots> = (int (unat p) + 128) mod 256 - 128"
    by (simp add: take_bit_eq_mod)
  finally show ?thesis .
qed

lemma unat_char_bound: "unat (p :: 8 word) < 256"
proof -
  have "unat p < 2 ^ LENGTH(8)" by (rule unsigned_less)
  then show ?thesis by simp
qed

lemma shift_mod_256:
  fixes n :: nat
  assumes "n < 256"
  shows "(int n + 128) mod 256 - 128 = (if n < 128 then int n else int n - 256)"
proof (cases "n < 128")
  case True
  then have "(int n + 128) mod 256 = int n + 128" by simp
  with True show ?thesis by simp
next
  case False
  with assms have "(int n + 128) mod 256 = int n + 128 - 256"
    by (subst mod_pos_geq) simp_all
  with False show ?thesis by simp
qed

lemma sint_char_cases:
  "sint (p :: 8 word) = (if unat p < 128 then int (unat p) else int (unat p) - 256)"
  unfolding sint_char by (rule shift_mod_256[OF unat_char_bound])

lemma char_range:
  "(sint (p :: 8 word) < 0 \<or> sint p > 127) = (\<not> unat p < 128)"
proof -
  have gen: "\<And>n::nat. n < 256 \<Longrightarrow>
      ((if n < 128 then int n else int n - 256) < 0
        \<or> (if n < 128 then int n else int n - 256) > 127) = (\<not> n < 128)"
    by auto
  show ?thesis unfolding sint_char_cases by (rule gen[OF unat_char_bound])
qed

lemma char_nonneg: "(sint (p :: 8 word) < 0) = (\<not> unat p < 128)"
proof -
  have gen: "\<And>n::nat. n < 256 \<Longrightarrow>
      ((if n < 128 then int n else int n - 256) < 0) = (\<not> n < 128)"
    by auto
  show ?thesis unfolding sint_char_cases by (rule gen[OF unat_char_bound])
qed

lemma partSize_nth:
  "partSize g p = (if unat p < 128 then g_npart g ! unat p else 0)"
  unfolding partSize_def char_range by simp

lemma grow_maxn_result:
  "grow_maxn i mx = Some m' \<Longrightarrow> mx \<le> m' \<and> i < m' \<and> (mx < 2 ^ 31 \<longrightarrow> m' < 2 ^ 31)"
proof (induction i mx rule: grow_maxn.induct)
  case (1 i mx)
  show ?case
  proof (cases "i \<ge> mx")
    case False
    with "1.prems" show ?thesis by (subst (asm) grow_maxn.simps) simp
  next
    case True
    with "1.prems" have c: "\<not> (mx \<le> 0 \<or> mx * 2 \<ge> 2 ^ 31)" and r: "grow_maxn i (mx * 2) = Some m'"
      by (subst (asm) grow_maxn.simps, simp split: if_splits)+
    from "1.IH"[OF True c r] c show ?thesis by auto
  qed
qed

lemma grow_size_result:
  "grow_size fam sz = Some s' \<Longrightarrow> sz \<le> s' \<and> fam < s'"
proof (induction fam sz rule: grow_size.induct)
  case (1 fam sz)
  show ?case
  proof (cases "fam \<ge> sz")
    case False
    with "1.prems" show ?thesis by (subst (asm) grow_size.simps) simp
  next
    case True
    with "1.prems" have c: "sz \<noteq> 0" and r: "grow_size fam (sz * 2) = Some s'"
      by (subst (asm) grow_size.simps, simp split: if_splits)+
    from "1.IH"[OF True c r] show ?thesis by auto
  qed
qed

lemma live_edge_listed: "live_edge g a \<longleftrightarrow> (\<exists>k. listed g k a)"
  by (auto simp: live_edge_def listed_def)

lemma listed_vderef: "listed g k a \<longleftrightarrow> (\<exists>v. vderef g (Some k) = Some v \<and> a \<in> set (v_edges v))"
  by (auto simp: listed_def vderef_def)

lemma edge_ok_mono:
  assumes "edge_ok g k a"
    and st: "\<And>x e. deref (g_edges g) (Some x) = Some e \<Longrightarrow> deref (g_edges g') (Some x) = Some e"
    and vx: "\<And>j w. vderef g (Some j) = Some w \<Longrightarrow> v_edges w \<noteq> [] \<Longrightarrow>
               \<exists>w'. vderef g' (Some j) = Some w' \<and> set (v_edges w) \<subseteq> set (v_edges w')"
  shows "edge_ok g' k a"
proof -
  have live: "live_edge g' s" if "live_edge g s" for s
  proof -
    from that obtain j w where "vderef g (Some j) = Some w" "s \<in> set (v_edges w)"
      unfolding live_edge_listed listed_vderef by blast
    moreover from this have "v_edges w \<noteq> []" by auto
    ultimately show ?thesis using vx[of j w] unfolding live_edge_listed listed_vderef by blast
  qed
  from assms(1) obtain e b r k' w where
    h: "deref (g_edges g) (Some a) = Some e" "e_adjRef e = Some b"
       "deref (g_edges g) (Some b) = Some r" "e_adjRef r = Some a"
       "e_adj r = Some k" "e_adj e = Some k'" "k' \<noteq> k"
       "vderef g (Some k') = Some w" "b \<in> set (v_edges w)"
       "e_sibling r = e_sibling e"
       "\<forall>s. e_sibling e = Some s \<longrightarrow>
              (\<exists>se. deref (g_edges g) (Some s) = Some se \<and> live_edge g s
                    \<and> (e_sibling se = Some a \<or> e_sibling se = Some b))"
    unfolding edge_ok_def by blast
  from h(11) live st have sib: "\<forall>s. e_sibling e = Some s \<longrightarrow>
              (\<exists>se. deref (g_edges g') (Some s) = Some se \<and> live_edge g' s
                    \<and> (e_sibling se = Some a \<or> e_sibling se = Some b))"
    by blast
  from h(9) have "v_edges w \<noteq> []" by auto
  from vx[OF h(8) this] h(9) obtain w' where w': "vderef g' (Some k') = Some w'" "b \<in> set (v_edges w')"
    by blast
  show ?thesis
    unfolding edge_ok_def
    using st[OF h(1)] h(2) st[OF h(3)] h(4-7) w' h(10) sib by blast
qed

lemma count_update_None:
  assumes "i < length xs" "xs ! i = None"
  shows "length (filter (\<lambda>c. c = Some p) (xs[i := Some q]))
       = length (filter (\<lambda>c. c = Some p) xs) + (if q = p then 1 else 0)"
proof -
  have x: "xs = take i xs @ None # drop (Suc i) xs"
    using assms by (metis id_take_nth_drop)
  have "xs[i := Some q] = take i xs @ Some q # drop (Suc i) xs"
    using assms(1) by (rule upd_conv_take_nth_drop)
  then have "length (filter (\<lambda>c. c = Some p) (xs[i := Some q]))
      = length (filter (\<lambda>c. c = Some p) (take i xs)) + (if q = p then 1 else 0)
        + length (filter (\<lambda>c. c = Some p) (drop (Suc i) xs))" by simp
  moreover have "length (filter (\<lambda>c. c = Some p) xs)
      = length (filter (\<lambda>c. c = Some p) (take i xs))
        + length (filter (\<lambda>c. c = Some p) (drop (Suc i) xs))"
    by (subst x) simp
  ultimately show ?thesis by simp
qed

lemma count_update_Some:
  assumes "i < length xs" "xs ! i = Some q"
  shows "length (filter (\<lambda>c. c = Some p) (xs[i := None])) + (if q = p then 1 else 0)
       = length (filter (\<lambda>c. c = Some p) xs)"
proof -
  have x: "xs = take i xs @ Some q # drop (Suc i) xs"
    using assms by (metis id_take_nth_drop)
  have "xs[i := None] = take i xs @ None # drop (Suc i) xs"
    using assms(1) by (rule upd_conv_take_nth_drop)
  then have "length (filter (\<lambda>c. c = Some p) (xs[i := None]))
      = length (filter (\<lambda>c. c = Some p) (take i xs))
        + length (filter (\<lambda>c. c = Some p) (drop (Suc i) xs))" by simp
  moreover have "length (filter (\<lambda>c. c = Some p) xs)
      = length (filter (\<lambda>c. c = Some p) (take i xs)) + (if q = p then 1 else 0)
        + length (filter (\<lambda>c. c = Some p) (drop (Suc i) xs))"
    by (subst x) simp
  ultimately show ?thesis by simp
qed

lemma Graph_wf_vderef:
  assumes "Graph_wf g" "vderef g (Some k) = Some v"
  shows "k < length (g_vertices g)" "g_vertices g ! k = Some v" "v_id v = int k"
    "int k \<le> g_lastVid g" "unat (v_family v) < length (g_fsize g)" "distinct (v_edges v)"
    "\<And>a. a \<in> set (v_edges v) \<Longrightarrow> edge_ok g k a"
proof -
  from assms(2) show k: "k < length (g_vertices g)" and v: "g_vertices g ! k = Some v"
    by (auto simp: vderef_def split: if_splits)
  from assms(1) k v have "v_id v = int k \<and> int k \<le> g_lastVid g \<and> unat (v_family v) < length (g_fsize g)
           \<and> distinct (v_edges v) \<and> (\<forall>a \<in> set (v_edges v). edge_ok g k a)"
    unfolding Graph_wf_def by blast
  then show "v_id v = int k" "int k \<le> g_lastVid g" "unat (v_family v) < length (g_fsize g)"
    "distinct (v_edges v)" "\<And>a. a \<in> set (v_edges v) \<Longrightarrow> edge_ok g k a" by auto
qed

lemma Graph_wfI:
  assumes "0 < g_maxn g" "g_maxn g < 2 ^ 31" "length (g_vertices g) = nat (g_maxn g)"
    "length (g_npart g) = 128" "0 < length (g_fsize g)" "- 1 \<le> g_lastVid g"
    "g_lastVid g < g_maxn g"
    and "\<And>k v. vderef g (Some k) = Some v \<Longrightarrow>
           v_id v = int k \<and> int k \<le> g_lastVid g \<and> unat (v_family v) < length (g_fsize g)
           \<and> distinct (v_edges v) \<and> (\<forall>a \<in> set (v_edges v). edge_ok g k a)"
  shows "Graph_wf g"
proof -
  have "\<forall>k < length (g_vertices g). \<forall>v. g_vertices g ! k = Some v \<longrightarrow>
           v_id v = int k \<and> int k \<le> g_lastVid g \<and> unat (v_family v) < length (g_fsize g)
           \<and> distinct (v_edges v) \<and> (\<forall>a \<in> set (v_edges v). edge_ok g k a)"
  proof (intro allI impI)
    fix k v assume "k < length (g_vertices g)" "g_vertices g ! k = Some v"
    then have "vderef g (Some k) = Some v" by (simp add: vderef_def)
    then show "v_id v = int k \<and> int k \<le> g_lastVid g \<and> unat (v_family v) < length (g_fsize g)
           \<and> distinct (v_edges v) \<and> (\<forall>a \<in> set (v_edges v). edge_ok g k a)" by (rule assms(8))
  qed
  with assms(1-7) show ?thesis unfolding Graph_wf_def by blast
qed

lemma Graph_wf_basic:
  assumes "Graph_wf g"
  shows "0 < g_maxn g" "g_maxn g < 2 ^ 31" "length (g_vertices g) = nat (g_maxn g)"
    "length (g_npart g) = 128" "0 < length (g_fsize g)" "- 1 \<le> g_lastVid g"
    "g_lastVid g < g_maxn g"
  using assms unfolding Graph_wf_def by blast+

text \<open>The explicit result of a successful insertion.\<close>

lemma addVertex_id_Some:
  assumes wf: "Graph_wf g" and r: "addVertex_id g i l p0 f = Some (Some k, g')"
  defines "part \<equiv> (if sint p0 < 0 then 0 else p0)"
  shows "\<exists>mx vs sz v.
      k = nat i \<and> 0 \<le> i \<and> g_maxn g \<le> mx \<and> i < mx \<and> mx < 2 ^ 31
      \<and> vs = g_vertices g @ replicate (nat mx - nat (g_maxn g)) None
      \<and> vs ! nat i = None
      \<and> length (g_fsize g) \<le> sz \<and> unat f < sz
      \<and> v = (Vertex_new i)\<lparr>v_part := part, v_family := ucast f, v_label := label_copy l\<rparr>
      \<and> g' = g\<lparr>g_maxn := mx,
                g_fsize := (resize (g_fsize g) sz 0)[unat f := resize (g_fsize g) sz 0 ! unat f + 1],
                g_lastVid := (if i > g_lastVid g then i else g_lastVid g),
                g_n := g_n g + 1,
                g_npart := (g_npart g)[unat part := g_npart g ! unat part + 1],
                g_vertices := vs[nat i := Some v]\<rparr>"
proof -
  note b = Graph_wf_basic[OF wf]
  define mx where "mx = (if i \<ge> g_maxn g then the (grow_maxn i (g_maxn g)) else g_maxn g)"
  define vs where "vs = (if i \<ge> g_maxn g then resize (g_vertices g) (nat mx) None else g_vertices g)"
  from r have gm: "(if i \<ge> g_maxn g then grow_maxn i (g_maxn g) else Some (g_maxn g)) = Some mx"
    unfolding addVertex_id_def Let_def mx_def by (auto split: bind_splits if_splits)
  have mxp: "g_maxn g \<le> mx \<and> i < mx \<and> mx < 2 ^ 31"
  proof (cases "i \<ge> g_maxn g")
    case True
    with gm have "grow_maxn i (g_maxn g) = Some mx" by simp
    from grow_maxn_result[OF this] b(2) show ?thesis by simp
  next
    case False
    with gm b(2) show ?thesis by simp
  qed
  have vs_eq: "vs = g_vertices g @ replicate (nat mx - nat (g_maxn g)) None"
  proof (cases "i \<ge> g_maxn g")
    case True
    with mxp b(1,3) show ?thesis by (auto simp: vs_def resize_def)
  next
    case False
    with gm have "mx = g_maxn g" by simp
    with False show ?thesis by (simp add: vs_def)
  qed
  from r gm have cell: "vec_at vs i = Some None"
    unfolding addVertex_id_def Let_def vs_def[symmetric]
    by (auto split: bind_splits option.splits simp: vs_def)
  then have i0: "0 \<le> i" and vi: "vs ! nat i = None"
    by (auto simp: vec_at_def split: if_splits)
  from r gm cell obtain sz where sz: "grow_size (unat f) (length (g_fsize g)) = Some sz"
    unfolding addVertex_id_def Let_def
    by (auto split: bind_splits option.splits simp: vs_def)
  from r gm cell sz have g': "g' = g\<lparr>g_maxn := mx,
                g_fsize := (resize (g_fsize g) sz 0)[unat f := resize (g_fsize g) sz 0 ! unat f + 1],
                g_lastVid := (if i > g_lastVid g then i else g_lastVid g),
                g_n := g_n g + 1,
                g_npart := (g_npart g)[unat part := g_npart g ! unat part + 1],
                g_vertices := vs[nat i := Some ((Vertex_new i)\<lparr>v_part := part, v_family := ucast f, v_label := label_copy l\<rparr>)]\<rparr>"
    and k: "k = nat i"
    unfolding addVertex_id_def Let_def part_def
    by (auto split: bind_splits option.splits simp: vs_def)
  from grow_size_result[OF sz] mxp vs_eq vi i0 g' k show ?thesis by blast
qed

lemma addVertex_id_None:
  assumes wf: "Graph_wf g" and r: "addVertex_id g i l p0 f = Some (None, g')"
  shows "g' = g"
proof -
  note b = Graph_wf_basic[OF wf]
  show ?thesis
  proof (cases "i \<ge> g_maxn g")
    case False
    with r show ?thesis
      unfolding addVertex_id_def Let_def by (auto split: bind_splits option.splits)
  next
    case True
    from r True obtain mx where mx: "grow_maxn i (g_maxn g) = Some mx"
      and c: "vec_at (resize (g_vertices g) (nat mx) None) i \<noteq> Some None"
      unfolding addVertex_id_def Let_def by (auto split: bind_splits option.splits)
    from r True mx have c2: "vec_at (resize (g_vertices g) (nat mx) None) i \<noteq> None"
      unfolding addVertex_id_def Let_def by (auto split: bind_splits option.splits)
    from grow_maxn_result[OF mx] have m: "g_maxn g \<le> mx" "i < mx" by simp_all
    have "resize (g_vertices g) (nat mx) None = g_vertices g @ replicate (nat mx - nat (g_maxn g)) None"
      using m b(1,3) by (auto simp: resize_def)
    moreover have "0 \<le> i" using True b(1) by simp
    ultimately have "vec_at (resize (g_vertices g) (nat mx) None) i = Some None"
      using True m b(1,3) by (auto simp: vec_at_def nth_append)
    with c show ?thesis by simp
  qed
qed

lemma unat_ucast_family_le: "unat (ucast (f :: 32 word) :: 16 word) \<le> unat f"
  by (simp add: unsigned_ucast_eq take_bit_nat_less_eq_self)

lemma addVertex_id_wf:
  assumes wf: "Graph_wf g" and r: "addVertex_id g i l p0 f = Some (Some k, g')"
  shows "Graph_wf g'"
proof -
  note b = Graph_wf_basic[OF wf]
  from addVertex_id_Some[OF wf r] obtain mx vs sz v where
    k: "k = nat i" and i0: "0 \<le> i" and mx: "g_maxn g \<le> mx" "i < mx" "mx < 2 ^ 31"
    and vs: "vs = g_vertices g @ replicate (nat mx - nat (g_maxn g)) None"
    and vi: "vs ! nat i = None"
    and sz: "length (g_fsize g) \<le> sz" "unat f < sz"
    and v: "v = (Vertex_new i)\<lparr>v_part := (if sint p0 < 0 then 0 else p0), v_family := ucast f,
                               v_label := label_copy l\<rparr>"
    and g': "g' = g\<lparr>g_maxn := mx,
                g_fsize := (resize (g_fsize g) sz 0)[unat f := resize (g_fsize g) sz 0 ! unat f + 1],
                g_lastVid := (if i > g_lastVid g then i else g_lastVid g),
                g_n := g_n g + 1,
                g_npart := (g_npart g)[unat (if sint p0 < 0 then 0 else p0) :=
                              g_npart g ! unat (if sint p0 < 0 then 0 else p0) + 1],
                g_vertices := vs[nat i := Some v]\<rparr>"
    by blast
  have lvs: "length vs = nat mx" using vs mx b(1,3) by auto
  have lfs: "length (g_fsize g') = sz" by (simp add: g' resize_def)
  have old: "vderef g' (Some j) = Some w" if "vderef g (Some j) = Some w" for j w
  proof -
    from that have j: "j < length (g_vertices g)" "g_vertices g ! j = Some w"
      by (auto simp: vderef_def split: if_splits)
    then have "vs ! j = Some w" by (simp add: vs nth_append)
    with vi have "j \<noteq> nat i" by auto
    with j \<open>vs ! j = Some w\<close> show ?thesis by (simp add: vderef_def g' vs)
  qed
  show ?thesis
  proof (rule Graph_wfI)
    show "0 < g_maxn g'" "g_maxn g' < 2 ^ 31" using mx b(1) by (simp_all add: g')
    show "length (g_vertices g') = nat (g_maxn g')" using lvs by (simp add: g')
    show "length (g_npart g') = 128" using b(4) by (simp add: g')
    show "0 < length (g_fsize g')" using sz lfs by simp
    show "- 1 \<le> g_lastVid g'" "g_lastVid g' < g_maxn g'" using b(6,7) mx by (auto simp: g')
  next
    fix j w assume d: "vderef g' (Some j) = Some w"
    then have j: "j < length vs" "(vs[nat i := Some v]) ! j = Some w"
      by (auto simp: vderef_def g' split: if_splits)
    show "v_id w = int j \<and> int j \<le> g_lastVid g' \<and> unat (v_family w) < length (g_fsize g')
           \<and> distinct (v_edges w) \<and> (\<forall>a \<in> set (v_edges w). edge_ok g' j a)"
    proof (cases "j = nat i")
      case True
      with j have "w = v" by simp
      moreover have "unat (ucast f :: 16 word) < sz"
        using unat_ucast_family_le[of f] sz(2) by simp
      ultimately show ?thesis using True i0 lfs by (simp add: v Vertex_new_def g')
    next
      case False
      with j have vj: "vs ! j = Some w" by simp
      have "j < length (g_vertices g)"
      proof (rule ccontr)
        assume "\<not> j < length (g_vertices g)"
        with vj j(1) show False by (simp add: vs nth_append)
      qed
      with vj have dw: "vderef g (Some j) = Some w" by (simp add: vderef_def vs nth_append)
      note o = Graph_wf_vderef[OF wf dw]
      have "edge_ok g' j a" if "a \<in> set (v_edges w)" for a
      proof (rule edge_ok_mono[OF o(7)[OF that]])
        fix x e assume "deref (g_edges g) (Some x) = Some e"
        then show "deref (g_edges g') (Some x) = Some e" by (simp add: g')
      next
        fix j2 w2 assume "vderef g (Some j2) = Some w2"
        from old[OF this] show "\<exists>w'. vderef g' (Some j2) = Some w' \<and> set (v_edges w2) \<subseteq> set (v_edges w')"
          by blast
      qed
      then show ?thesis using o(3-6) sz(1) lfs by (auto simp: g')
    qed
  qed
qed

lemma addVertex_id_counts:
  assumes wf: "Graph_wf g" and r: "addVertex_id g i l p0 f = Some (Some k, g')"
  shows "\<exists>v. vderef g' (Some k) = Some v \<and> vderef g (Some k) = None \<and> unat (v_part v) < 128
            \<and> v_part v = (if sint p0 < 0 then 0 else p0)
            \<and> (\<forall>p. partSize g' p = partSize g p + (if p = v_part v then 1 else 0))
            \<and> (\<forall>p. part_count g' p = part_count g p + (if p = v_part v then 1 else 0))"
proof -
  note b = Graph_wf_basic[OF wf]
  define part where "part = (if sint p0 < 0 then 0 else p0)"
  from addVertex_id_Some[OF wf r] obtain mx vs sz v where
    k: "k = nat i" and i0: "0 \<le> i" and mx: "g_maxn g \<le> mx" "i < mx" "mx < 2 ^ 31"
    and vs: "vs = g_vertices g @ replicate (nat mx - nat (g_maxn g)) None"
    and vi: "vs ! nat i = None"
    and v: "v = (Vertex_new i)\<lparr>v_part := part, v_family := ucast f, v_label := label_copy l\<rparr>"
    and g': "g' = g\<lparr>g_maxn := mx,
                g_fsize := (resize (g_fsize g) sz 0)[unat f := resize (g_fsize g) sz 0 ! unat f + 1],
                g_lastVid := (if i > g_lastVid g then i else g_lastVid g),
                g_n := g_n g + 1,
                g_npart := (g_npart g)[unat part := g_npart g ! unat part + 1],
                g_vertices := vs[nat i := Some v]\<rparr>"
    unfolding part_def by blast
  have lvs: "length vs = nat mx" using vs mx b(1,3) by auto
  have ki: "nat i < length vs" using lvs mx i0 by auto
  have pv: "v_part v = part" by (simp add: v)
  have pp: "unat part < 128"
  proof -
    have "\<not> sint part < 0" by (simp add: part_def)
    then show ?thesis by (simp add: char_nonneg)
  qed
  have d': "vderef g' (Some k) = Some v" using ki by (simp add: vderef_def g' k)
  have d: "vderef g (Some k) = None"
  proof (cases "nat i < length (g_vertices g)")
    case True
    with vi have "g_vertices g ! nat i = None" by (simp add: vs nth_append)
    with True show ?thesis by (simp add: vderef_def k)
  next
    case False
    then show ?thesis by (simp add: vderef_def k)
  qed
  have ps: "partSize g' p = partSize g p + (if p = part then 1 else 0)" for p
  proof (cases "unat p < 128")
    case False
    with pp have "p \<noteq> part" by auto
    with False show ?thesis by (simp add: partSize_nth g')
  next
    case True
    show ?thesis
    proof (cases "p = part")
      case True
      with pp b(4) show ?thesis by (simp add: partSize_nth g')
    next
      case False
      then have "unat p \<noteq> unat part" by (simp add: word_unat_eq_iff)
      with True False show ?thesis by (simp add: partSize_nth g')
    qed
  qed
  have pc: "part_count g' p = part_count g p + (if p = part then 1 else 0)" for p
  proof -
    let ?m = "map (map_option v_part)"
    have "?m (g_vertices g') = (?m vs)[nat i := Some part]" by (simp add: g' map_update pv)
    moreover have "length (filter (\<lambda>c. c = Some p) ((?m vs)[nat i := Some part]))
        = length (filter (\<lambda>c. c = Some p) (?m vs)) + (if part = p then 1 else 0)"
      by (rule count_update_None) (use ki vi in simp_all)
    moreover have "length (filter (\<lambda>c. c = Some p) (?m vs))
        = length (filter (\<lambda>c. c = Some p) (?m (g_vertices g)))" by (simp add: vs)
    ultimately show ?thesis by (auto simp: part_count_map)
  qed
  have "vderef g' (Some k) = Some v \<and> vderef g (Some k) = None \<and> unat (v_part v) < 128
            \<and> v_part v = part
            \<and> (\<forall>p. partSize g' p = partSize g p + (if p = v_part v then 1 else 0))
            \<and> (\<forall>p. part_count g' p = part_count g p + (if p = v_part v then 1 else 0))"
    using d' d pp ps pc by (simp add: pv)
  then show ?thesis unfolding part_def by (rule exI)
qed

lemma addEdge_None:
  assumes "addEdge g v1 v2 l = Some (None, g')"
  shows "g' = g"
  using assms
  by (auto simp: addEdge_def Let_def split: option.splits if_splits bind_splits prod.splits)

lemma addEdge_Some:
  assumes "addEdge g v1 v2 l = Some (Some a, g')"
  shows "\<exists>k1 k2 w1 w2. v1 = Some k1 \<and> v2 = Some k2 \<and> k1 \<noteq> k2
           \<and> vderef g (Some k1) = Some w1 \<and> vderef g (Some k2) = Some w2
           \<and> a = length (g_edges g)
           \<and> g' = g\<lparr>g_m := g_m g + 1,
                     g_vertices := (g_vertices g)
                       [k1 := Some (w1\<lparr>v_edges := a # v_edges w1, v_degree := v_degree w1 + 1\<rparr>),
                        k2 := Some (w2\<lparr>v_edges := Suc a # v_edges w2, v_degree := v_degree w2 + 1\<rparr>)],
                     g_edges := g_edges g @ [Some (new_edge v2 (Suc a) l), Some (new_edge v1 a l)]\<rparr>"
proof -
  from assms obtain k1 k2 where v: "v1 = Some k1" "v2 = Some k2" "k1 \<noteq> k2"
    by (auto simp: addEdge_def split: option.splits if_splits)
  let ?g0 = "g\<lparr>g_m := g_m g + 1\<rparr>"
  from assms v obtain e1 g1 e2 g2 where
    1: "Vertex_addEdge ?g0 k1 v2 l = Some (e1, g1)"
    and 2: "Vertex_addEdge g1 k2 v1 l = Some (e2, g2)"
    by (auto simp: addEdge_def Let_def split: bind_splits)
  from 1 obtain w1 where w1: "vderef g (Some k1) = Some w1"
    by (auto simp: Vertex_addEdge_def vderef_def split: bind_splits if_splits)
  from 1 w1 have e1: "e1 = length (g_edges g)"
    and g1: "g1 = (vstore ?g0 k1 (w1\<lparr>v_edges := length (g_edges g) # v_edges w1, v_degree := v_degree w1 + 1\<rparr>))
                  \<lparr>g_edges := g_edges g @ [Some \<lparr>e_adj = v2, e_adjRef = None, e_label = label_copy l,
                e_ex1 = Extremity 0 UNDEF, e_ex2 = Extremity 0 UNDEF, e_sibling = None\<rparr>]\<rparr>"
    by (auto simp: Vertex_addEdge_def Let_def vderef_def split: bind_splits if_splits)
  from 2 obtain w2' where w2': "vderef g1 (Some k2) = Some w2'"
    by (auto simp: Vertex_addEdge_def split: bind_splits)
  from w1 have k1l: "k1 < length (g_vertices g)" by (auto simp: vderef_def split: if_splits)
  from w2' v(3) have w2: "vderef g (Some k2) = Some w2'"
    by (auto simp: g1 vderef_def vstore_def split: if_splits)
  then have k2l: "k2 < length (g_vertices g)" by (auto simp: vderef_def split: if_splits)
  from 2 w2' have e2: "e2 = Suc (length (g_edges g))"
    and g2: "g2 = (vstore g1 k2 (w2'\<lparr>v_edges := Suc (length (g_edges g)) # v_edges w2', v_degree := v_degree w2' + 1\<rparr>))
                  \<lparr>g_edges := g_edges g1 @ [Some \<lparr>e_adj = v1, e_adjRef = None, e_label = label_copy l,
                e_ex1 = Extremity 0 UNDEF, e_ex2 = Extremity 0 UNDEF, e_sibling = None\<rparr>]\<rparr>"
    by (auto simp: Vertex_addEdge_def Let_def g1 split: bind_splits)
  from assms v 1 2 have a: "a = e1"
    by (auto simp: addEdge_def Let_def split: bind_splits)
  have d1: "deref (g_edges g2) (Some e1) = Some \<lparr>e_adj = v2, e_adjRef = None, e_label = label_copy l,
                e_ex1 = Extremity 0 UNDEF, e_ex2 = Extremity 0 UNDEF, e_sibling = None\<rparr>"
    by (simp add: deref_def g2 g1 e1 nth_append)
  have d2: "deref (g_edges (estore_upd g2 e1 r)) (Some e2) = Some \<lparr>e_adj = v1, e_adjRef = None, e_label = label_copy l,
                e_ex1 = Extremity 0 UNDEF, e_ex2 = Extremity 0 UNDEF, e_sibling = None\<rparr>" for r
    by (simp add: deref_def g2 g1 e1 e2 nth_append estore_upd_def)
  from assms v 1 2 d1 d2 have "g' = estore_upd (estore_upd g2 e1 (new_edge v2 e2 l)) e2 (new_edge v1 e1 l)"
    by (auto simp: addEdge_def Let_def new_edge_def)
  then have "g' = g\<lparr>g_m := g_m g + 1,
                     g_vertices := (g_vertices g)
                       [k1 := Some (w1\<lparr>v_edges := a # v_edges w1, v_degree := v_degree w1 + 1\<rparr>),
                        k2 := Some (w2'\<lparr>v_edges := Suc a # v_edges w2', v_degree := v_degree w2' + 1\<rparr>)],
                     g_edges := g_edges g @ [Some (new_edge v2 (Suc a) l), Some (new_edge v1 a l)]\<rparr>"
    by (simp add: g2 g1 e1 e2 a estore_upd_def vstore_def list_update_append)
  with v w1 w2 a e1 show ?thesis by blast
qed

lemma edge_ok_addr:
  assumes "edge_ok g k a"
  shows "a < length (g_edges g)"
  using assms by (auto simp: edge_ok_def deref_def split: if_splits)

lemma addEdge_wf:
  assumes wf: "Graph_wf g" and r: "addEdge g v1 v2 l = Some (res, g')"
  shows "Graph_wf g'"
proof (cases res)
  case None
  with r addEdge_None wf show ?thesis by blast
next
  case (Some a)
  note b = Graph_wf_basic[OF wf]
  from addEdge_Some[OF r[unfolded Some]] obtain k1 k2 w1 w2 where
    v: "v1 = Some k1" "v2 = Some k2" "k1 \<noteq> k2"
    and w1: "vderef g (Some k1) = Some w1" and w2: "vderef g (Some k2) = Some w2"
    and a: "a = length (g_edges g)"
    and g': "g' = g\<lparr>g_m := g_m g + 1,
                     g_vertices := (g_vertices g)
                       [k1 := Some (w1\<lparr>v_edges := a # v_edges w1, v_degree := v_degree w1 + 1\<rparr>),
                        k2 := Some (w2\<lparr>v_edges := Suc a # v_edges w2, v_degree := v_degree w2 + 1\<rparr>)],
                     g_edges := g_edges g @ [Some (new_edge v2 (Suc a) l), Some (new_edge v1 a l)]\<rparr>"
    by blast
  let ?w1 = "w1\<lparr>v_edges := a # v_edges w1, v_degree := v_degree w1 + 1\<rparr>"
  let ?w2 = "w2\<lparr>v_edges := Suc a # v_edges w2, v_degree := v_degree w2 + 1\<rparr>"
  note o1 = Graph_wf_vderef[OF wf w1] and o2 = Graph_wf_vderef[OF wf w2]
  have d1: "vderef g' (Some k1) = Some ?w1" using o1(1) o2(1) v(3) by (simp add: vderef_def g')
  have d2: "vderef g' (Some k2) = Some ?w2" using o2(1) by (simp add: vderef_def g')
  have dj: "vderef g' (Some j) = vderef g (Some j)" if "j \<noteq> k1" "j \<noteq> k2" for j
    using that by (simp add: vderef_def g')
  have st: "deref (g_edges g') (Some x) = Some e" if "deref (g_edges g) (Some x) = Some e" for x e
    using that by (auto simp: deref_def g' nth_append split: if_splits)
  have vx: "\<exists>w'. vderef g' (Some j) = Some w' \<and> set (v_edges w) \<subseteq> set (v_edges w')"
    if "vderef g (Some j) = Some w" for j w
  proof -
    consider "j = k1" | "j = k2" | "j \<noteq> k1" "j \<noteq> k2" by blast
    then show ?thesis
    proof cases
      case 1 with that w1 d1 show ?thesis by auto
    next
      case 2 with that w2 d2 show ?thesis by auto
    next
      case 3 with that dj show ?thesis by auto
    qed
  qed
  have keep: "edge_ok g' j x" if "edge_ok g j x" for j x
    by (rule edge_ok_mono[OF that st vx])
  have da: "deref (g_edges g') (Some a) = Some (new_edge v2 (Suc a) l)"
    by (simp add: deref_def g' a nth_append)
  have db: "deref (g_edges g') (Some (Suc a)) = Some (new_edge v1 a l)"
    by (simp add: deref_def g' a nth_append)
  have oka: "edge_ok g' k1 a"
    unfolding edge_ok_def using da db d2 v by (auto simp: new_edge_def)
  have okb: "edge_ok g' k2 (Suc a)"
    unfolding edge_ok_def using da db d1 v by (auto simp: new_edge_def)
  have fresh: "x < a" if "vderef g (Some j) = Some w" "x \<in> set (v_edges w)" for j w x
    using edge_ok_addr[OF Graph_wf_vderef(7)[OF wf that]] a by simp
  show ?thesis
  proof (rule Graph_wfI)
    show "0 < g_maxn g'" "g_maxn g' < 2 ^ 31" "length (g_vertices g') = nat (g_maxn g')"
      "length (g_npart g') = 128" "0 < length (g_fsize g')" "- 1 \<le> g_lastVid g'"
      "g_lastVid g' < g_maxn g'"
      using b by (simp_all add: g')
  next
    fix j w assume d: "vderef g' (Some j) = Some w"
    consider "j = k1" | "j = k2" | "j \<noteq> k1" "j \<noteq> k2" by blast
    then show "v_id w = int j \<and> int j \<le> g_lastVid g' \<and> unat (v_family w) < length (g_fsize g')
           \<and> distinct (v_edges w) \<and> (\<forall>a \<in> set (v_edges w). edge_ok g' j a)"
    proof cases
      case 1
      with d d1 have w: "w = ?w1" by simp
      have "a \<notin> set (v_edges w1)" using fresh[OF w1] by blast
      moreover have "\<forall>x \<in> set (v_edges w1). edge_ok g' k1 x" using o1(7) keep by blast
      ultimately show ?thesis using o1(3-6) oka 1 by (simp add: w g')
    next
      case 2
      with d d2 have w: "w = ?w2" by simp
      have "Suc a \<notin> set (v_edges w2)" using fresh[OF w2] by fastforce
      moreover have "\<forall>x \<in> set (v_edges w2). edge_ok g' k2 x" using o2(7) keep by blast
      ultimately show ?thesis using o2(3-6) okb 2 by (simp add: w g')
    next
      case 3
      with d dj have dw: "vderef g (Some j) = Some w" by simp
      note o = Graph_wf_vderef[OF wf dw]
      have "\<forall>x \<in> set (v_edges w). edge_ok g' j x" using o(7) keep by blast
      then show ?thesis using o(3-6) by (simp add: g')
    qed
  qed
qed

lemma addEdge_id_wf:
  assumes "Graph_wf g" "addEdge_id g i1 i2 l = Some (res, g')"
  shows "Graph_wf g'"
  using assms
  by (auto simp: addEdge_id_def split: if_splits bind_splits dest: addEdge_wf)

lemma edge_okE:
  assumes "edge_ok g k a"
  obtains e b r k' w where
    "deref (g_edges g) (Some a) = Some e" "e_adjRef e = Some b"
    "deref (g_edges g) (Some b) = Some r" "e_adjRef r = Some a"
    "e_adj r = Some k" "e_adj e = Some k'" "k' \<noteq> k"
    "vderef g (Some k') = Some w" "b \<in> set (v_edges w)"
    "e_sibling r = e_sibling e"
    "\<And>s. e_sibling e = Some s \<Longrightarrow>
        \<exists>se. deref (g_edges g) (Some s) = Some se \<and> live_edge g s
              \<and> (e_sibling se = Some a \<or> e_sibling se = Some b)"
  using assms unfolding edge_ok_def by blast

lemma listed_edge_ok:
  assumes "Graph_wf g" "listed g k a"
  shows "edge_ok g k a"
  using assms Graph_wf_vderef(7) unfolding listed_vderef by blast

lemma listed_owner:
  assumes wf: "Graph_wf g" and 1: "listed g j x" and 2: "listed g j' x"
  shows "j = j'"
proof -
  from listed_edge_ok[OF wf 1] obtain e b r where
    "deref (g_edges g) (Some x) = Some e" "e_adjRef e = Some b"
    "deref (g_edges g) (Some b) = Some r" "e_adj r = Some j"
    by (rule edge_okE)
  moreover from listed_edge_ok[OF wf 2] obtain e' b' r' where
    "deref (g_edges g) (Some x) = Some e'" "e_adjRef e' = Some b'"
    "deref (g_edges g) (Some b') = Some r'" "e_adj r' = Some j'"
    by (rule edge_okE)
  ultimately show ?thesis by simp
qed

text \<open>The mirror record of a listed record is listed at the other endpoint, with this one as its mirror.\<close>

lemma listed_mirror:
  assumes wf: "Graph_wf g" and 1: "listed g k a"
    and e: "deref (g_edges g) (Some a) = Some e" "e_adjRef e = Some b" "e_adj e = Some k2"
  shows "listed g k2 b" "k2 \<noteq> k" "b \<noteq> a"
    "\<exists>r. deref (g_edges g) (Some b) = Some r \<and> e_adjRef r = Some a \<and> e_adj r = Some k
         \<and> e_sibling r = e_sibling e"
proof -
  from listed_edge_ok[OF wf 1] obtain e' b' r k' w where
    h: "deref (g_edges g) (Some a) = Some e'" "e_adjRef e' = Some b'"
    "deref (g_edges g) (Some b') = Some r" "e_adjRef r = Some a"
    "e_adj r = Some k" "e_adj e' = Some k'" "k' \<noteq> k"
    "vderef g (Some k') = Some w" "b' \<in> set (v_edges w)" "e_sibling r = e_sibling e'"
    by (rule edge_okE)
  from h(1,2,6) e have eq: "e' = e" "b' = b" "k' = k2" by simp_all
  from h(8,9) show l: "listed g k2 b" unfolding listed_vderef eq by blast
  from h(7) show ne: "k2 \<noteq> k" unfolding eq .
  from listed_owner[OF wf 1] l ne show "b \<noteq> a" by blast
  from h(3,4,5,10) show "\<exists>r. deref (g_edges g) (Some b) = Some r \<and> e_adjRef r = Some a \<and> e_adj r = Some k
         \<and> e_sibling r = e_sibling e" unfolding eq by blast
qed

lemma map_clr:
  "map_option (clr C x) c = (if x \<in> C then map_option (\<lambda>r. r\<lparr>e_sibling := None\<rparr>) c else c)"
  by (cases c) (simp_all add: clr_def)

lemma deref_update:
  "deref (es[y := c]) (Some x) = (if x = y \<and> y < length es then c else deref es (Some x))"
  by (auto simp: deref_def)

lemma deref_lt: "deref es (Some x) = Some e \<Longrightarrow> x < length es"
  by (auto simp: deref_def split: if_splits)

lemma vderef_update:
  "vderef (g\<lparr>g_vertices := (g_vertices g)[y := c]\<rparr>) (Some j)
     = (if j = y \<and> y < length (g_vertices g) then c else vderef g (Some j))"
  by (auto simp: vderef_def)

lemma Edge_setSibling_None:
  assumes "deref (g_edges g) (Some s) = Some se" "e_adjRef se = Some sb"
    "deref (g_edges g) (Some sb) = Some rsb" "s \<noteq> sb"
  shows "\<exists>g1. Edge_setSibling g (Some s) None = Some g1
           \<and> g1 = g\<lparr>g_edges := g_edges g1\<rparr> \<and> length (g_edges g1) = length (g_edges g)
           \<and> (\<forall>x. deref (g_edges g1) (Some x) = map_option (clr {s, sb} x) (deref (g_edges g) (Some x)))"
proof -
  let ?g1 = "g\<lparr>g_edges := (g_edges g)[sb := Some (rsb\<lparr>e_sibling := None\<rparr>),
                                       s := Some (se\<lparr>e_sibling := None\<rparr>)]\<rparr>"
  have ls: "s < length (g_edges g)" "sb < length (g_edges g)"
    using assms(1,3) by (auto dest: deref_lt)
  have "deref (g_edges (estore_upd g sb (rsb\<lparr>e_sibling := None\<rparr>))) (Some s) = Some se"
    using assms(1,4) by (simp add: estore_upd_def deref_update)
  then have 1: "Edge_setSibling g (Some s) None = Some ?g1"
    using assms(1-3) by (simp add: Edge_setSibling_def Let_def estore_upd_def)
  have "deref (g_edges ?g1) (Some x) = map_option (clr {s, sb} x) (deref (g_edges g) (Some x))" for x
    using assms ls by (auto simp: deref_update map_clr)
  with 1 show ?thesis by simp
qed

lemma removeEdge_explicit:
  assumes wf: "Graph_wf g" and v1: "vderef g (Some k) = Some v1" and a: "a \<in> set (v_edges v1)"
    and e: "deref (g_edges g) (Some a) = Some e" "e_adjRef e = Some b" "e_adj e = Some k2"
    and w2: "vderef g (Some k2) = Some w2"
  defines "C \<equiv> (case e_sibling e of None \<Rightarrow> {}
                  | Some s \<Rightarrow> (case deref (g_edges g) (Some s) of None \<Rightarrow> {}
                               | Some se \<Rightarrow> {s} \<union> set_option (e_adjRef se)))"
  shows "\<exists>g'. removeEdge g (Some a) = Some g'
     \<and> g_maxn g' = g_maxn g \<and> g_npart g' = g_npart g \<and> g_fsize g' = g_fsize g
     \<and> g_lastVid g' = g_lastVid g \<and> length (g_vertices g') = length (g_vertices g)
     \<and> (\<forall>j. vderef g' (Some j) =
            (if j = k then Some (v1\<lparr>v_edges := remove1 a (v_edges v1), v_degree := v_degree v1 - 1\<rparr>)
             else if j = k2 then Some (w2\<lparr>v_edges := remove1 b (v_edges w2), v_degree := v_degree w2 - 1\<rparr>)
             else vderef g (Some j)))
     \<and> (\<forall>x. deref (g_edges g') (Some x) =
            (if x = a \<or> x = b then None else map_option (clr C x) (deref (g_edges g) (Some x))))"
proof -
  have la: "listed g k a" using v1 a unfolding listed_vderef by blast
  note m = listed_mirror[OF wf la e]
  from m(4) obtain r where r: "deref (g_edges g) (Some b) = Some r" "e_adjRef r = Some a"
    "e_adj r = Some k" "e_sibling r = e_sibling e" by blast
  have kl: "k < length (g_vertices g)" "k2 < length (g_vertices g)"
    using v1 w2 by (auto simp: vderef_def split: if_splits)
  \<comment> \<open>the sibling step\<close>
  have "\<exists>g1. (case e_sibling e of None \<Rightarrow> Some g | Some s \<Rightarrow> Edge_setSibling g (Some s) None) = Some g1
        \<and> g1 = g\<lparr>g_edges := g_edges g1\<rparr> \<and> length (g_edges g1) = length (g_edges g)
        \<and> (\<forall>x. deref (g_edges g1) (Some x) = map_option (clr C x) (deref (g_edges g) (Some x)))"
  proof (cases "e_sibling e")
    case None
    then have "C = {}" by (simp add: C_def)
    then have "map_option (clr C x) c = c" for x c by (simp add: map_clr)
    with None show ?thesis by simp
  next
    case (Some s)
    from listed_edge_ok[OF wf la] e(1) Some obtain se where
      se: "deref (g_edges g) (Some s) = Some se" "live_edge g s"
      by (auto elim!: edge_okE)
    from se(2) obtain ks where ls: "listed g ks s" unfolding live_edge_listed by blast
    from listed_edge_ok[OF wf ls] se(1) obtain sb rsb where
      sb: "e_adjRef se = Some sb" "deref (g_edges g) (Some sb) = Some rsb"
      by (auto elim!: edge_okE)
    from listed_edge_ok[OF wf ls] se(1) sb(1) obtain k' where "e_adj se = Some k'"
      by (auto elim!: edge_okE)
    from listed_mirror(3)[OF wf ls se(1) sb(1) this] have ne: "s \<noteq> sb" by simp
    have "C = {s, sb}" using Some se(1) sb(1) by (auto simp: C_def)
    with Edge_setSibling_None[OF se(1) sb ne] Some show ?thesis by simp
  qed
  then obtain g1 where g1: "(case e_sibling e of None \<Rightarrow> Some g | Some s \<Rightarrow> Edge_setSibling g (Some s) None) = Some g1"
    and g1r: "g1 = g\<lparr>g_edges := g_edges g1\<rparr>"
    and l1: "length (g_edges g1) = length (g_edges g)"
    and g1d: "\<And>x. deref (g_edges g1) (Some x) = map_option (clr C x) (deref (g_edges g) (Some x))"
    by blast
  have f: "g_maxn g1 = g_maxn g" "g_npart g1 = g_npart g" "g_fsize g1 = g_fsize g"
    "g_lastVid g1 = g_lastVid g" "g_vertices g1 = g_vertices g"
    by (subst g1r, simp)+
  have g1v: "vderef g1 p = vderef g p" for p by (cases p) (simp_all add: vderef_def f)
  \<comment> \<open>the two removals\<close>
  let ?v1 = "v1\<lparr>v_edges := remove1 a (v_edges v1), v_degree := v_degree v1 - 1\<rparr>"
  let ?w2 = "w2\<lparr>v_edges := remove1 b (v_edges w2), v_degree := v_degree w2 - 1\<rparr>"
  let ?g2 = "(vstore g1 k ?v1)\<lparr>g_edges := (g_edges g1)[a := None]\<rparr>"
  have da1: "deref (g_edges g1) (Some a) \<noteq> None" using g1d[of a] e(1) by simp
  have r2: "Vertex_removeEdge g1 (Some k) (Some a) = Some ?g2"
    using da1 v1 g1v by (auto simp: Vertex_removeEdge_def)
  let ?g3 = "(vstore ?g2 k2 ?w2)\<lparr>g_edges := (g_edges ?g2)[b := None]\<rparr>"
  have db2: "deref (g_edges ?g2) (Some b) \<noteq> None"
    using g1d[of b] r(1) m(3) by (simp add: deref_update)
  have w22: "vderef ?g2 (Some k2) = Some w2"
    using w2 kl m(2) by (simp add: vstore_def vderef_def f)
  have r3: "Vertex_removeEdge ?g2 (Some k2) (Some b) = Some ?g3"
    using db2 w22 by (auto simp: Vertex_removeEdge_def)
  let ?g' = "?g3\<lparr>g_m := g_m ?g3 - 1\<rparr>"
  have res: "removeEdge g (Some a) = Some ?g'"
    using e r g1 r2 r3 by (simp add: removeEdge_def Let_def)
  have vd: "vderef ?g' (Some j) =
            (if j = k then Some ?v1 else if j = k2 then Some ?w2 else vderef g (Some j))" for j
    using kl m(2) by (auto simp: vderef_def vstore_def f)
  have lx: "a < length (g_edges g)" "b < length (g_edges g)"
    using e(1) r(1) by (auto dest: deref_lt)
  have ed: "deref (g_edges ?g') (Some x) =
            (if x = a \<or> x = b then None else map_option (clr C x) (deref (g_edges g) (Some x)))" for x
    using g1d[of x] lx l1 by (auto simp: vstore_def deref_update)
  from res vd ed f show ?thesis
    by (intro exI[of _ ?g']) (simp add: vstore_def)
qed

lemma removeEdge_wf:
  assumes wf: "Graph_wf g" and la: "listed g k a"
  shows "\<exists>g'. removeEdge g (Some a) = Some g' \<and> Graph_wf g'
           \<and> (\<forall>j. \<exists>w w'. (vderef g (Some j) = None \<and> vderef g' (Some j) = None)
                    \<or> (vderef g (Some j) = Some w \<and> vderef g' (Some j) = Some w'
                        \<and> set (v_edges w') \<subseteq> set (v_edges w)
                        \<and> (j = k \<longrightarrow> v_edges w' = remove1 a (v_edges w))))"
proof -
  note b0 = Graph_wf_basic[OF wf]
  from la obtain v1 where v1: "vderef g (Some k) = Some v1" "a \<in> set (v_edges v1)"
    unfolding listed_vderef by blast
  from listed_edge_ok[OF wf la] obtain e b r k2 w2 where
    e: "deref (g_edges g) (Some a) = Some e" "e_adjRef e = Some b" "e_adj e = Some k2"
    and r: "deref (g_edges g) (Some b) = Some r" "e_adjRef r = Some a" "e_adj r = Some k"
       "e_sibling r = e_sibling e"
    and w2: "vderef g (Some k2) = Some w2" "b \<in> set (v_edges w2)"
    and sa: "\<And>s. e_sibling e = Some s \<Longrightarrow>
        \<exists>se. deref (g_edges g) (Some s) = Some se \<and> live_edge g s
              \<and> (e_sibling se = Some a \<or> e_sibling se = Some b)"
    by (rule edge_okE) blast
  note m = listed_mirror[OF wf la e]
  define C where "C = (case e_sibling e of None \<Rightarrow> {}
                  | Some s \<Rightarrow> (case deref (g_edges g) (Some s) of None \<Rightarrow> {}
                               | Some se \<Rightarrow> {s} \<union> set_option (e_adjRef se)))"
  from removeEdge_explicit[OF wf v1 e w2(1), folded C_def] obtain g' where
    res: "removeEdge g (Some a) = Some g'"
    and f: "g_maxn g' = g_maxn g" "g_npart g' = g_npart g" "g_fsize g' = g_fsize g"
       "g_lastVid g' = g_lastVid g" "length (g_vertices g') = length (g_vertices g)"
    and vd: "\<And>j. vderef g' (Some j) =
            (if j = k then Some (v1\<lparr>v_edges := remove1 a (v_edges v1), v_degree := v_degree v1 - 1\<rparr>)
             else if j = k2 then Some (w2\<lparr>v_edges := remove1 b (v_edges w2), v_degree := v_degree w2 - 1\<rparr>)
             else vderef g (Some j))"
    and ed: "\<And>x. deref (g_edges g') (Some x) =
            (if x = a \<or> x = b then None else map_option (clr C x) (deref (g_edges g) (Some x)))"
    by blast
  \<comment> \<open>what the set of cleared records is\<close>
  have CC: "s \<in> C" if "e_sibling e = Some s" for s
    using sa[OF that] that by (auto simp: C_def)
  have Cs: "\<exists>s se sb rsb. e_sibling e = Some s \<and> C = {s, sb}
            \<and> deref (g_edges g) (Some s) = Some se \<and> e_adjRef se = Some sb
            \<and> deref (g_edges g) (Some sb) = Some rsb \<and> e_adjRef rsb = Some s
            \<and> e_sibling rsb = e_sibling se \<and> (e_sibling se = Some a \<or> e_sibling se = Some b)"
    if "x \<in> C" for x
  proof -
    from that obtain s where s: "e_sibling e = Some s" by (auto simp: C_def split: option.splits)
    from sa[OF s] obtain se where se: "deref (g_edges g) (Some s) = Some se" "live_edge g s"
      "e_sibling se = Some a \<or> e_sibling se = Some b" by blast
    from se(2) obtain ks where ls: "listed g ks s" unfolding live_edge_listed by blast
    from listed_edge_ok[OF wf ls] obtain se' sb rsb where
      "deref (g_edges g) (Some s) = Some se'" "e_adjRef se' = Some sb"
      "deref (g_edges g) (Some sb) = Some rsb" "e_adjRef rsb = Some s" "e_sibling rsb = e_sibling se'"
      by (rule edge_okE) blast
    with se(1) have sb: "e_adjRef se = Some sb"
      "deref (g_edges g) (Some sb) = Some rsb" "e_adjRef rsb = Some s" "e_sibling rsb = e_sibling se"
      by simp_all
    have "C = {s, sb}" using s se(1) sb(1) by (auto simp: C_def)
    with s se(1,3) sb show ?thesis by blast
  qed
  have CA: "e_sibling ex = Some a \<or> e_sibling ex = Some b"
    if "x \<in> C" "deref (g_edges g) (Some x) = Some ex" for x ex
    using Cs[OF that(1)] that by auto
  have CB: "bx \<in> C"
    if "x \<in> C" "deref (g_edges g) (Some x) = Some ex" "e_adjRef ex = Some bx" for x ex bx
    using Cs[OF that(1)] that by auto
  \<comment> \<open>the lists before and after\<close>
  have d1: "distinct (v_edges v1)" and d2: "distinct (v_edges w2)"
    using Graph_wf_vderef(6)[OF wf] v1(1) w2(1) by blast+
  have lb: "listed g k2 b" using w2 unfolding listed_vderef by blast
  have sub: "listed g j x \<and> x \<noteq> a \<and> x \<noteq> b" if "listed g' j x" for j x
  proof -
    from that obtain w' where w': "vderef g' (Some j) = Some w'" "x \<in> set (v_edges w')"
      unfolding listed_vderef by blast
    consider "j = k" | "j \<noteq> k" "j = k2" | "j \<noteq> k" "j \<noteq> k2" by blast
    then show ?thesis
    proof cases
      case 1
      with w' vd[of j] d1 have x: "x \<in> set (v_edges v1)" "x \<noteq> a" by auto
      with v1(1) 1 have l: "listed g j x" unfolding listed_vderef by blast
      from listed_owner[OF wf l] lb m(2) 1 have "x \<noteq> b" by blast
      with l x show ?thesis by simp
    next
      case 2
      with w' vd[of j] d2 have x: "x \<in> set (v_edges w2)" "x \<noteq> b" by auto
      with w2(1) 2 have l: "listed g j x" unfolding listed_vderef by blast
      from listed_owner[OF wf l] la 2 have "x \<noteq> a" by blast
      with l x show ?thesis by simp
    next
      case 3
      with w' vd[of j] have l: "listed g j x" unfolding listed_vderef by auto
      from listed_owner[OF wf l] la lb 3 have "x \<noteq> a" "x \<noteq> b" by blast+
      with l show ?thesis by simp
    qed
  qed
  have sup: "listed g' j x" if "listed g j x" "x \<noteq> a" "x \<noteq> b" for j x
  proof -
    from that(1) obtain w where w: "vderef g (Some j) = Some w" "x \<in> set (v_edges w)"
      unfolding listed_vderef by blast
    consider "j = k" | "j \<noteq> k" "j = k2" | "j \<noteq> k" "j \<noteq> k2" by blast
    then show ?thesis
    proof cases
      case 1
      with w v1(1) that(2) have "x \<in> set (remove1 a (v_edges v1))" by simp
      with vd[of j] 1 show ?thesis unfolding listed_vderef by simp
    next
      case 2
      with w w2(1) that(3) have "x \<in> set (remove1 b (v_edges w2))" by simp
      with vd[of j] 2 show ?thesis unfolding listed_vderef by simp
    next
      case 3
      with w vd[of j] show ?thesis unfolding listed_vderef by simp
    qed
  qed
  \<comment> \<open>every record still listed is well linked\<close>
  have ok': "edge_ok g' j x" if lx': "listed g' j x" for j x
  proof -
    from sub[OF lx'] have lx: "listed g j x" and xa: "x \<noteq> a" and xb: "x \<noteq> b" by simp_all
    from listed_edge_ok[OF wf lx] obtain ex bx rx kx wx where
      ex: "deref (g_edges g) (Some x) = Some ex" "e_adjRef ex = Some bx" "e_adj ex = Some kx"
      and rx: "deref (g_edges g) (Some bx) = Some rx" "e_adjRef rx = Some x" "e_adj rx = Some j"
        "e_sibling rx = e_sibling ex"
      and wx: "kx \<noteq> j" "vderef g (Some kx) = Some wx" "bx \<in> set (v_edges wx)"
      and sx: "\<And>s. e_sibling ex = Some s \<Longrightarrow>
        \<exists>se. deref (g_edges g) (Some s) = Some se \<and> live_edge g s
              \<and> (e_sibling se = Some x \<or> e_sibling se = Some bx)"
      by (rule edge_okE) blast
    have bxa: "bx \<noteq> a" using rx(1,2) e(1,2) xb by auto
    have bxb: "bx \<noteq> b" using rx(1,2) r(1,2) xa by auto
    have lbx: "listed g kx bx" using wx(2,3) unfolding listed_vderef by blast
    from sup[OF lbx bxa bxb] obtain wx' where
      wx': "vderef g' (Some kx) = Some wx'" "bx \<in> set (v_edges wx')"
      unfolding listed_vderef by blast
    have F6: "x \<in> C \<longleftrightarrow> bx \<in> C"
      using CB[OF _ ex(1,2)] CB[OF _ rx(1,2)] by blast
    have dx: "deref (g_edges g') (Some x) = Some (clr C x ex)" using ed[of x] xa xb ex(1) by simp
    have dbx: "deref (g_edges g') (Some bx) = Some (clr C bx rx)"
      using ed[of bx] bxa bxb rx(1) by simp
    have sibeq: "e_sibling (clr C bx rx) = e_sibling (clr C x ex)"
      using F6 rx(4) by (simp add: clr_def)
    have sib: "\<exists>se. deref (g_edges g') (Some s) = Some se \<and> live_edge g' s
              \<and> (e_sibling se = Some x \<or> e_sibling se = Some bx)"
      if s: "e_sibling (clr C x ex) = Some s" for s
    proof -
      from s have xC: "x \<notin> C" and s0: "e_sibling ex = Some s"
        by (auto simp: clr_def split: if_splits)
      from sx[OF s0] obtain se where se: "deref (g_edges g) (Some s) = Some se" "live_edge g s"
        "e_sibling se = Some x \<or> e_sibling se = Some bx" by blast
      have sC: "s \<notin> C"
      proof
        assume "s \<in> C"
        from CA[OF this se(1)] se(3) xa xb bxa bxb show False by auto
      qed
      have sna: "s \<noteq> a"
      proof
        assume "s = a"
        with se(1) e(1) have "se = e" by simp
        with se(3) CC F6 xC show False by auto
      qed
      have snb: "s \<noteq> b"
      proof
        assume "s = b"
        with se(1) r(1) have "se = r" by simp
        with se(3) r(4) CC F6 xC show False by auto
      qed
      from se(2) obtain js where "listed g js s" unfolding live_edge_listed by blast
      from sup[OF this sna snb] have "live_edge g' s" unfolding live_edge_listed by blast
      moreover have "deref (g_edges g') (Some s) = Some se"
        using ed[of s] sna snb se(1) sC by (simp add: clr_def)
      ultimately show ?thesis using se(3) by blast
    qed
    show ?thesis
      unfolding edge_ok_def
      using dx dbx ex(2,3) rx(2,3) wx(1) wx' sibeq sib
      by (intro exI[of _ "clr C x ex"] exI[of _ bx] exI[of _ "clr C bx rx"] exI[of _ kx]
          exI[of _ wx']) (simp add: clr_def)
  qed
  have wf': "Graph_wf g'"
  proof (rule Graph_wfI)
    show "0 < g_maxn g'" "g_maxn g' < 2 ^ 31" "length (g_vertices g') = nat (g_maxn g')"
      "length (g_npart g') = 128" "0 < length (g_fsize g')" "- 1 \<le> g_lastVid g'"
      "g_lastVid g' < g_maxn g'"
      using b0 by (simp_all add: f)
  next
    fix j w assume d: "vderef g' (Some j) = Some w"
    have oks: "\<forall>x \<in> set (v_edges w). edge_ok g' j x"
      using ok' d unfolding listed_vderef by blast
    consider "j = k" | "j \<noteq> k" "j = k2" | "j \<noteq> k" "j \<noteq> k2" by blast
    then show "v_id w = int j \<and> int j \<le> g_lastVid g' \<and> unat (v_family w) < length (g_fsize g')
           \<and> distinct (v_edges w) \<and> (\<forall>a \<in> set (v_edges w). edge_ok g' j a)"
    proof cases
      case 1
      with d vd[of j] have "w = v1\<lparr>v_edges := remove1 a (v_edges v1), v_degree := v_degree v1 - 1\<rparr>"
        by simp
      with Graph_wf_vderef(3-6)[OF wf v1(1)] oks 1 show ?thesis by (simp add: f)
    next
      case 2
      with d vd[of j] have "w = w2\<lparr>v_edges := remove1 b (v_edges w2), v_degree := v_degree w2 - 1\<rparr>"
        by simp
      with Graph_wf_vderef(3-6)[OF wf w2(1)] oks 2 show ?thesis by (simp add: f)
    next
      case 3
      with d vd[of j] have "vderef g (Some j) = Some w" by simp
      with Graph_wf_vderef(3-6)[OF wf this] oks show ?thesis by (simp add: f)
    qed
  qed
  have lists: "\<exists>w w'. (vderef g (Some j) = None \<and> vderef g' (Some j) = None)
                    \<or> (vderef g (Some j) = Some w \<and> vderef g' (Some j) = Some w'
                        \<and> set (v_edges w') \<subseteq> set (v_edges w)
                        \<and> (j = k \<longrightarrow> v_edges w' = remove1 a (v_edges w)))" for j
  proof -
    consider "j = k" | "j \<noteq> k" "j = k2" | "j \<noteq> k" "j \<noteq> k2" by blast
    then show ?thesis
    proof cases
      case 1
      with vd[of j] v1(1) show ?thesis by (auto intro: set_remove1_subset[THEN subsetD])
    next
      case 2
      with vd[of j] w2(1) show ?thesis by (auto intro: set_remove1_subset[THEN subsetD])
    next
      case 3
      with vd[of j] show ?thesis by (cases "vderef g (Some j)") auto
    qed
  qed
  from res wf' lists show ?thesis by blast
qed

lemma removeVertex_loop_wf:
  assumes "Graph_wf g" "vderef g (Some k) = Some v"
  shows "\<exists>g1 v'. removeVertex_loop g k = Some g1 \<and> Graph_wf g1
           \<and> vderef g1 (Some k) = Some v' \<and> v_edges v' = []"
  using assms
proof (induction "length (v_edges v)" arbitrary: g v)
  case 0
  then show ?case by (subst removeVertex_loop.simps) simp
next
  case (Suc n)
  then obtain a as where as: "v_edges v = a # as" by (cases "v_edges v") auto
  with Suc.prems(2) have "listed g k a" unfolding listed_vderef by auto
  from removeEdge_wf[OF Suc.prems(1) this] obtain g' where
    g': "removeEdge g (Some a) = Some g'" "Graph_wf g'"
    and l: "\<And>j. \<exists>w w'. (vderef g (Some j) = None \<and> vderef g' (Some j) = None)
                    \<or> (vderef g (Some j) = Some w \<and> vderef g' (Some j) = Some w'
                        \<and> set (v_edges w') \<subseteq> set (v_edges w)
                        \<and> (j = k \<longrightarrow> v_edges w' = remove1 a (v_edges w)))"
    by blast
  from l[of k] Suc.prems(2) as obtain w' where w': "vderef g' (Some k) = Some w'" "v_edges w' = as"
    by auto
  with Suc.hyps(2) as have "n = length (v_edges w')" by simp
  from Suc.hyps(1)[OF this g'(2) w'(1)] obtain g1 v' where
    "removeVertex_loop g' k = Some g1" "Graph_wf g1" "vderef g1 (Some k) = Some v'" "v_edges v' = []"
    by blast
  moreover from this(1) g'(1) Suc.prems(2) as have "removeVertex_loop g k = Some g1"
    by (subst removeVertex_loop.simps) simp
  ultimately show ?case by blast
qed

lemma part_count_pos:
  assumes "vderef g (Some k) = Some v"
  shows "0 < part_count g (v_part v)"
proof -
  from assms have "Some v \<in> set (g_vertices g)"
    by (auto simp: vderef_def split: if_splits intro: nth_mem dest!: sym[of _ "Some v"])
  then have "filter (\<lambda>c. case c of None \<Rightarrow> False | Some w \<Rightarrow> v_part w = v_part v) (g_vertices g) \<noteq> []"
    by (auto simp: filter_empty_conv intro!: bexI[of _ "Some v"])
  then show ?thesis by (simp add: part_count_def)
qed

lemma npart_ok_part_bound:
  assumes "npart_ok g" "vderef g (Some k) = Some v"
  shows "unat (v_part v) < 128"
proof (rule ccontr)
  assume "\<not> unat (v_part v) < 128"
  then have "partSize g (v_part v) = 0" by (simp add: partSize_nth)
  with assms(1) part_count_pos[OF assms(2)] show False by (simp add: npart_ok_def)
qed

lemma removeVertex_wf:
  assumes wf: "Graph_wf g" and np: "npart_ok g" and v: "vderef g (Some k) = Some v"
  shows "\<exists>g'. removeVertex g (Some k) = Some g' \<and> Graph_wf g' \<and> npart_ok g'
           \<and> vderef g' (Some k) = None
           \<and> (\<forall>p. partSize g' p = partSize g p - (if p = v_part v then 1 else 0))
           \<and> (\<forall>p. part_count g' p = part_count g p - (if p = v_part v then 1 else 0))"
proof -
  from removeVertex_loop_wf[OF wf v] obtain g1 v' where
    lp: "removeVertex_loop g k = Some g1" and wf1: "Graph_wf g1"
    and v': "vderef g1 (Some k) = Some v'" "v_edges v' = []" by blast
  note ss = removeVertex_loop_same_slots[OF lp]
  note b1 = Graph_wf_basic[OF wf1] and o1 = Graph_wf_vderef[OF wf1 v'(1)]
  from same_slots_vderef[OF ss, of "Some k"] v v'(1) have pv: "v_part v' = v_part v" by simp
  have pb: "unat (v_part v') < 128" using npart_ok_part_bound[OF np v] pv by simp
  let ?g' = "g1\<lparr>g_vertices := (g_vertices g1)[nat (v_id v') := None],
                   g_npart := (g_npart g1)[unat (v_part v') := g_npart g1 ! unat (v_part v') - 1],
                   g_fsize := (g_fsize g1)[unat (v_family v') :=
                                             g_fsize g1 ! unat (v_family v') - 1],
                   g_n := g_n g1 - 1\<rparr>"
  have u1: "uint (v_family v') < int (length (g_fsize g1))"
    using o1(5) of_nat_less_iff[where ?'a = int, of "unat (v_family v')" "length (g_fsize g1)"]
    by simp
  have u2: "uint (v_part v') < 128"
    using pb of_nat_less_iff[where ?'a = int, of "unat (v_part v')" 128] by simp
  have res: "removeVertex g (Some k) = Some ?g'"
    using lp v' o1(1,3) b1(4) u1 u2 by (simp add: removeVertex_def vec_at_def)
  have idk: "nat (v_id v') = k" using o1(3) by simp
  have vd: "vderef ?g' (Some j) = (if j = k then None else vderef g1 (Some j))" for j
    using o1(1) by (simp add: vderef_def idk)
  have wf': "Graph_wf ?g'"
  proof (rule Graph_wfI)
    show "0 < g_maxn ?g'" "g_maxn ?g' < 2 ^ 31" "length (g_vertices ?g') = nat (g_maxn ?g')"
      "length (g_npart ?g') = 128" "0 < length (g_fsize ?g')" "- 1 \<le> g_lastVid ?g'"
      "g_lastVid ?g' < g_maxn ?g'"
      using b1 by simp_all
  next
    fix j w assume d: "vderef ?g' (Some j) = Some w"
    with vd[of j] have jk: "j \<noteq> k" and dw: "vderef g1 (Some j) = Some w" by (auto split: if_splits)
    note o = Graph_wf_vderef[OF wf1 dw]
    have "edge_ok ?g' j x" if "x \<in> set (v_edges w)" for x
    proof (rule edge_ok_mono[OF o(7)[OF that]])
      fix y e assume "deref (g_edges g1) (Some y) = Some e"
      then show "deref (g_edges ?g') (Some y) = Some e" by simp
    next
      fix j2 w2 assume "vderef g1 (Some j2) = Some w2" "v_edges w2 \<noteq> []"
      with v' have "j2 \<noteq> k" by auto
      with vd[of j2] \<open>vderef g1 (Some j2) = Some w2\<close>
      show "\<exists>w'. vderef ?g' (Some j2) = Some w' \<and> set (v_edges w2) \<subseteq> set (v_edges w')" by simp
    qed
    then show "v_id w = int j \<and> int j \<le> g_lastVid ?g' \<and> unat (v_family w) < length (g_fsize ?g')
           \<and> distinct (v_edges w) \<and> (\<forall>a \<in> set (v_edges w). edge_ok ?g' j a)"
      using o(3-6) by simp
  qed
  have ps1: "partSize ?g' p = partSize g1 p - (if p = v_part v' then 1 else 0)" for p
  proof (cases "unat p < 128")
    case False
    with pb have "p \<noteq> v_part v'" by auto
    with False show ?thesis by (simp add: partSize_nth)
  next
    case True
    show ?thesis
    proof (cases "p = v_part v'")
      case True
      with pb b1(4) show ?thesis by (simp add: partSize_nth)
    next
      case False
      then have "unat p \<noteq> unat (v_part v')" by (simp add: word_unat_eq_iff)
      with True False show ?thesis by (simp add: partSize_nth)
    qed
  qed
  have pc1: "part_count ?g' p = part_count g1 p - (if p = v_part v' then 1 else 0)" for p
  proof -
    let ?m = "map (map_option v_part)"
    have "?m (g_vertices ?g') = (?m (g_vertices g1))[k := None]" by (simp add: map_update idk)
    moreover have "length (filter (\<lambda>c. c = Some p) ((?m (g_vertices g1))[k := None]))
          + (if v_part v' = p then 1 else 0)
        = length (filter (\<lambda>c. c = Some p) (?m (g_vertices g1)))"
      by (rule count_update_Some) (use o1(1,2) in simp_all)
    ultimately show ?thesis by (auto simp: part_count_map)
  qed
  have ps: "partSize ?g' p = partSize g p - (if p = v_part v then 1 else 0)" for p
    using ps1[of p] same_slots_counts(1)[OF ss, of p] pv by simp
  have pc: "part_count ?g' p = part_count g p - (if p = v_part v then 1 else 0)" for p
    using pc1[of p] same_slots_counts(2)[OF ss, of p] pv by simp
  have "npart_ok ?g'" using np ps pc unfolding npart_ok_def by simp
  with res wf' vd[of k] ps pc show ?thesis by (intro exI[of _ ?g']) simp
qed

lemma part_count_all_None:
  assumes "\<forall>c \<in> set (g_vertices g). c = None"
  shows "part_count g p = 0"
proof -
  have "filter (\<lambda>c. case c of None \<Rightarrow> False | Some v \<Rightarrow> v_part v = p) (g_vertices g) = []"
    using assms by (auto simp: filter_empty_conv)
  then show ?thesis by (simp add: part_count_def)
qed

lemma Graph_new_wf:
  assumes "Graph_new l n = Some g" "n < 2 ^ 31"
  shows "Graph_wf g" "npart_ok g"
proof -
  from assms(1) have n0: "0 \<le> n" by (auto simp: Graph_new_def split: if_splits)
  have g: "g = \<lparr>g_n = 0, g_maxn = (if n < 1 then 128 else n), g_m = 0, g_lastVid = - 1,
                g_vertices = (if n < 1 then resize (replicate (nat n) None) 128 None
                              else replicate (nat n) None),
                g_label = label_copy l, g_npart = replicate 128 0, g_fsize = replicate 128 0,
                g_fname = replicate 128 None, g_edges = []\<rparr>"
    using assms(1) n0 by (simp add: Graph_new_def split: if_splits)
  have vs: "g_vertices g = replicate (nat (g_maxn g)) None"
    using n0 by (auto simp: g resize_def)
  show "Graph_wf g"
  proof (rule Graph_wfI)
    show "0 < g_maxn g" "g_maxn g < 2 ^ 31" "length (g_vertices g) = nat (g_maxn g)"
      "length (g_npart g) = 128" "0 < length (g_fsize g)" "- 1 \<le> g_lastVid g"
      "g_lastVid g < g_maxn g"
      using assms(2) n0 by (simp_all add: vs) (simp_all add: g)
  next
    fix j w assume "vderef g (Some j) = Some w"
    then have False by (auto simp: vderef_def vs split: if_splits)
    then show "v_id w = int j \<and> int j \<le> g_lastVid g \<and> unat (v_family w) < length (g_fsize g)
           \<and> distinct (v_edges w) \<and> (\<forall>a \<in> set (v_edges w). edge_ok g j a)" ..
  qed
  have "part_count g p = 0" for p
    by (rule part_count_all_None) (simp add: vs)
  moreover have "partSize g p = 0" for p
  proof (cases "unat p < 128")
    case True
    then show ?thesis by (simp add: partSize_nth g)
  next
    case False
    then show ?thesis by (simp add: partSize_nth)
  qed
  ultimately show "npart_ok g" by (simp add: npart_ok_def)
qed

lemma addVertex_as_id:
  assumes "addVertex g l p f = Some (r, g')"
  shows "\<exists>i. addVertex_id g i l p f = Some (r, g')"
  using assms by (auto simp: addVertex_def split: bind_splits)

lemma addVertex_id_inv:
  assumes wf: "Graph_wf g" and np: "npart_ok g"
    and r: "addVertex_id g i l p f = Some (Some k, g')"
  shows "Graph_wf g' \<and> npart_ok g'
       \<and> (\<exists>v. vderef g' (Some k) = Some v \<and> vderef g (Some k) = None
              \<and> v_part v = (if sint p < 0 then 0 else p)
              \<and> (\<forall>q. partSize g' q = partSize g q + (if q = v_part v then 1 else 0)))"
proof -
  from addVertex_id_counts[OF wf r] obtain v where
    v: "vderef g' (Some k) = Some v" "vderef g (Some k) = None"
       "v_part v = (if sint p < 0 then 0 else p)"
    and ps: "\<And>q. partSize g' q = partSize g q + (if q = v_part v then 1 else 0)"
    and pc: "\<And>q. part_count g' q = part_count g q + (if q = v_part v then 1 else 0)"
    by blast
  from np ps pc have "npart_ok g'" by (simp add: npart_ok_def)
  with addVertex_id_wf[OF wf r] v ps show ?thesis by blast
qed

lemma removeVertex_id_as_ptr:
  assumes "Graph_wf g" "vderef g (Some k) = Some v"
  shows "removeVertex_id g (int k) = removeVertex g (Some k)"
  using assms(2) Graph_wf_basic[OF assms(1)]
  by (auto simp: removeVertex_id_def getVertex_def vec_at_def vderef_def split: if_splits)

lemma same_slots_inv:
  assumes "same_slots g g'" "npart_ok g"
  shows "npart_ok g' \<and> (\<forall>q. partSize g' q = partSize g q)"
  using same_slots_npart_ok[OF assms(1)] assms(2) same_slots_counts(1)[OF assms(1)] by simp

text \<open>
  C10 (amended).  The per-part counter is exact as long as part fields are written by the Graph
  operations alone: a fresh graph is well formed and has exact counters, and on a well-formed
  graph with exact counters a successful \<^verbatim>\<open>addVertex\<close> keeps both properties and raises the
  counter of the new vertex's part (a negative part is stored as part 0) by one, an
  \<^verbatim>\<open>addVertex\<close> that finds the slot taken changes nothing, \<^verbatim>\<open>removeVertex\<close> of a live
  vertex returns, keeps both properties and lowers the counter of its part by one, and
  \<^verbatim>\<open>addEdge\<close>, \<^verbatim>\<open>removeEdge\<close>, \<^verbatim>\<open>removeEdge(ex1, ex2)\<close>, \<^verbatim>\<open>setLabel\<close> and
  \<^verbatim>\<open>setFamilyName\<close> leave every counter as it is.
\<close>

theorem partSize_counts_live_vertices:
  "(\<forall>l n g0. n < 2 ^ 31 \<and> Graph_new l n = Some g0 \<longrightarrow> Graph_wf g0 \<and> npart_ok g0)
   \<and> (Graph_wf g \<and> npart_ok g \<longrightarrow>
        (\<forall>i l p f k g'. addVertex_id g i l p f = Some (Some k, g') \<longrightarrow>
            Graph_wf g' \<and> npart_ok g'
            \<and> (\<exists>v. vderef g' (Some k) = Some v \<and> vderef g (Some k) = None
                  \<and> v_part v = (if sint p < 0 then 0 else p)
                  \<and> (\<forall>q. partSize g' q = partSize g q + (if q = v_part v then 1 else 0))))
      \<and> (\<forall>i l p f g'. addVertex_id g i l p f = Some (None, g') \<longrightarrow> g' = g)
      \<and> (\<forall>l p f r g'. addVertex g l p f = Some (r, g') \<longrightarrow>
            (\<exists>i. addVertex_id g i l p f = Some (r, g')))
      \<and> (\<forall>k v. vderef g (Some k) = Some v \<longrightarrow>
            (\<exists>g'. removeVertex g (Some k) = Some g' \<and> removeVertex_id g (int k) = Some g'
                  \<and> Graph_wf g' \<and> npart_ok g' \<and> vderef g' (Some k) = None
                  \<and> (\<forall>q. partSize g' q = partSize g q - (if q = v_part v then 1 else 0))))
      \<and> (\<forall>v1 v2 l r g'. addEdge g v1 v2 l = Some (r, g') \<longrightarrow>
            Graph_wf g' \<and> npart_ok g' \<and> (\<forall>q. partSize g' q = partSize g q))
      \<and> (\<forall>i1 i2 l r g'. addEdge_id g i1 i2 l = Some (r, g') \<longrightarrow>
            Graph_wf g' \<and> npart_ok g' \<and> (\<forall>q. partSize g' q = partSize g q))
      \<and> (\<forall>k a. listed g k a \<longrightarrow>
            (\<exists>g'. removeEdge g (Some a) = Some g' \<and> Graph_wf g' \<and> npart_ok g'
                  \<and> (\<forall>q. partSize g' q = partSize g q)))
      \<and> (\<forall>x1 x2 g'. removeEdge_ex g x1 x2 = Some g' \<longrightarrow>
            npart_ok g' \<and> (\<forall>q. partSize g' q = partSize g q))
      \<and> (\<forall>l. npart_ok (setLabel g l) \<and> (\<forall>q. partSize (setLabel g l) q = partSize g q))
      \<and> (\<forall>f nm g'. setFamilyName g f nm = Some g' \<longrightarrow>
            npart_ok g' \<and> (\<forall>q. partSize g' q = partSize g q)))"
proof (intro conjI impI allI)
  fix l n g0 assume "n < 2 ^ 31 \<and> Graph_new l n = Some g0"
  then show "Graph_wf g0" "npart_ok g0" using Graph_new_wf by blast+
next
  fix i l p f k g'
  assume a: "Graph_wf g \<and> npart_ok g" "addVertex_id g i l p f = Some (Some k, g')"
  from addVertex_id_inv[OF _ _ a(2)] a(1)
  show "Graph_wf g'" "npart_ok g'"
    "\<exists>v. vderef g' (Some k) = Some v \<and> vderef g (Some k) = None
         \<and> v_part v = (if sint p < 0 then 0 else p)
         \<and> (\<forall>q. partSize g' q = partSize g q + (if q = v_part v then 1 else 0))"
    by blast+
next
  fix i l p f g'
  assume "Graph_wf g \<and> npart_ok g" "addVertex_id g i l p f = Some (None, g')"
  then show "g' = g" using addVertex_id_None by blast
next
  fix l p f r g'
  assume "addVertex g l p f = Some (r, g')"
  then show "\<exists>i. addVertex_id g i l p f = Some (r, g')" by (rule addVertex_as_id)
next
  fix k v
  assume a: "Graph_wf g \<and> npart_ok g" "vderef g (Some k) = Some v"
  from a(1) have wf: "Graph_wf g" and np: "npart_ok g" by simp_all
  from removeVertex_wf[OF wf np a(2)] removeVertex_id_as_ptr[OF wf a(2)]
  show "\<exists>g'. removeVertex g (Some k) = Some g' \<and> removeVertex_id g (int k) = Some g'
           \<and> Graph_wf g' \<and> npart_ok g' \<and> vderef g' (Some k) = None
           \<and> (\<forall>q. partSize g' q = partSize g q - (if q = v_part v then 1 else 0))"
    by auto
next
  fix v1 v2 l r g'
  assume a: "Graph_wf g \<and> npart_ok g" "addEdge g v1 v2 l = Some (r, g')"
  from a(1) have wf: "Graph_wf g" and np: "npart_ok g" by simp_all
  from addEdge_wf[OF wf a(2)] same_slots_inv[OF addEdge_same_slots[OF a(2)] np]
  show "Graph_wf g'" "npart_ok g'" "partSize g' q = partSize g q" for q by simp_all
next
  fix i1 i2 l r g'
  assume a: "Graph_wf g \<and> npart_ok g" "addEdge_id g i1 i2 l = Some (r, g')"
  from a(1) have wf: "Graph_wf g" and np: "npart_ok g" by simp_all
  from addEdge_id_wf[OF wf a(2)] same_slots_inv[OF addEdge_id_same_slots[OF a(2)] np]
  show "Graph_wf g'" "npart_ok g'" "partSize g' q = partSize g q" for q by simp_all
next
  fix k a
  assume a: "Graph_wf g \<and> npart_ok g" "listed g k a"
  from a(1) have wf: "Graph_wf g" and np: "npart_ok g" by simp_all
  from removeEdge_wf[OF wf a(2)] obtain g' where
    g': "removeEdge g (Some a) = Some g'" "Graph_wf g'" by blast
  with same_slots_inv[OF removeEdge_same_slots[OF g'(1)] np]
  show "\<exists>g'. removeEdge g (Some a) = Some g' \<and> Graph_wf g' \<and> npart_ok g'
           \<and> (\<forall>q. partSize g' q = partSize g q)" by blast
next
  fix x1 x2 g'
  assume a: "Graph_wf g \<and> npart_ok g" "removeEdge_ex g x1 x2 = Some g'"
  from a(1) have np: "npart_ok g" by simp
  from same_slots_inv[OF removeEdge_ex_same_slots[OF a(2)] np]
  show "npart_ok g'" "partSize g' q = partSize g q" for q by simp_all
next
  fix l
  assume a: "Graph_wf g \<and> npart_ok g"
  then have np: "npart_ok g" by simp
  from same_slots_inv[OF setLabel_same_slots np]
  show "npart_ok (setLabel g l)" "partSize (setLabel g l) q = partSize g q" for q by simp_all
next
  fix f nm g'
  assume a: "Graph_wf g \<and> npart_ok g" "setFamilyName g f nm = Some g'"
  from a(1) have np: "npart_ok g" by simp
  from same_slots_inv[OF setFamilyName_same_slots[OF a(2)] np]
  show "npart_ok g'" "partSize g' q = partSize g q" for q by simp_all
qed

text \<open>
  The theorem at a concrete run: a graph of capacity 4, vertex 0 added in part 1, then removed.
\<close>

theorem partSize_counts_live_vertices_witness:
  "(\<exists>g0. Graph_new None 4 = Some g0
         \<and> addVertex_id g0 0 (Some ''a'') 1 0 = Some (Some 0, one_vertex_graph)
         \<and> partSize g0 1 = 0 \<and> part_count g0 1 = 0)
   \<and> partSize one_vertex_graph 1 = 1 \<and> part_count one_vertex_graph 1 = 1
   \<and> (\<exists>g'. removeVertex one_vertex_graph (Some 0) = Some g'
           \<and> partSize g' 1 = 0 \<and> part_count g' 1 = 0)"
proof -
  from one_vertex_graph_built obtain g0 where
    g0: "Graph_new None 4 = Some g0"
        "addVertex_id g0 0 (Some ''a'') 1 0 = Some (Some 0, one_vertex_graph)" by blast
  have "(4::int) < 2 ^ 31 \<and> Graph_new None 4 = Some g0" using g0(1) by simp
  note i0 = partSize_counts_live_vertices[of g0, THEN conjunct1, rule_format, OF this]
  have c0: "partSize g0 1 = 0"
    using g0(1) by (auto simp: Graph_new_def partSize_nth)
  note s1 = partSize_counts_live_vertices[of g0, THEN conjunct2, THEN mp, OF i0,
      THEN conjunct1, rule_format, OF g0(2)]
  from s1 have i1: "Graph_wf one_vertex_graph \<and> npart_ok one_vertex_graph" by blast
  have c1: "partSize one_vertex_graph 1 = 1"
    by (simp add: partSize_nth one_vertex_graph_def)
  have v: "vderef one_vertex_graph (Some 0)
             = Some ((Vertex_new 0)\<lparr>v_part := 1, v_label := Some ''a''\<rparr>)"
    by (simp add: vderef_def one_vertex_graph_def)
  note s2 = partSize_counts_live_vertices[of one_vertex_graph, THEN conjunct2, THEN mp, OF i1,
      THEN conjunct2, THEN conjunct2, THEN conjunct2, THEN conjunct1, rule_format, OF v]
  from s2 obtain g' where
    g': "removeVertex one_vertex_graph (Some 0) = Some g'" "npart_ok g'"
        "\<And>q. partSize g' q = partSize one_vertex_graph q
                - (if q = v_part ((Vertex_new 0)\<lparr>v_part := 1, v_label := Some ''a''\<rparr>) then 1 else 0)"
    by blast
  from g'(3)[of 1] c1 have c2: "partSize g' 1 = 0" by simp
  from i0 i1 g'(2) c0 c1 c2 have
    "part_count g0 1 = 0" "part_count one_vertex_graph 1 = 1" "part_count g' 1 = 0"
    by (simp_all add: npart_ok_def)
  with g0 g'(1) c0 c1 c2 show ?thesis by blast
qed

text \<open>
  The claim as written fails: \<^verbatim>\<open>Vertex::setPart\<close> rewrites the part field and leaves
  \<^verbatim>\<open>npart\<close> alone, so after moving the one vertex from part 1 to part 2 the counter of part 1
  is 1 with no live vertex in it, and the counter of part 2 is 0 with one.
\<close>

theorem partSize_setPart_counterexample:
  "\<exists>g2. Vertex_setPart one_vertex_graph (Some 0) 2 = Some g2
      \<and> partSize g2 1 = 1 \<and> part_count g2 1 = 0
      \<and> partSize g2 2 = 0 \<and> part_count g2 2 = 1"
  by (simp add: Vertex_setPart_def vderef_def vstore_def one_vertex_graph_def partSize_nth
      part_count_def Vertex_new_def)

section \<open>The conflict graph of a list of cycles\<close>

lemma adjacent_iff:
  "adjacent g i j \<longleftrightarrow>
     (\<exists>v a e. vderef g (Some i) = Some v \<and> a \<in> set (v_edges v)
              \<and> deref (g_edges g) (Some a) = Some e \<and> e_adj e = Some j)"
  by (auto simp: adjacent_def list_ex_iff split: option.splits)

lemma adjacent_live:
  assumes "Graph_wf g" "adjacent g i j"
  shows "vderef g (Some i) \<noteq> None" "vderef g (Some j) \<noteq> None" "i \<noteq> j"
proof -
  from assms(2) obtain v a e where
    h: "vderef g (Some i) = Some v" "a \<in> set (v_edges v)"
       "deref (g_edges g) (Some a) = Some e" "e_adj e = Some j"
    unfolding adjacent_iff by blast
  from h(1) show "vderef g (Some i) \<noteq> None" by simp
  from Graph_wf_vderef(7)[OF assms(1) h(1) h(2)] have "edge_ok g i a" .
  then show "vderef g (Some j) \<noteq> None" "i \<noteq> j"
    using h(3,4) by (auto elim!: edge_okE)
qed











lemma entries_Nil [simp]: "entries [] = {}"
  by (simp add: entries_def)





lemma hits_Nil [simp]: "hits skip [] = {}"
  by (simp add: hits_def)



lemma edges_at_Nil [simp]: "edges_at es c [] = []"
  by (simp add: edges_at_def)


















lemma star_empty [simp]: "star k {} x y = False"
  by (simp add: star_def)










section \<open>The enumeration of the cycles of a triangle\<close>







lemma shift_1:
  "shift es x edges (Suc 0) =
     do { b \<leftarrow> Edge_less es x (edges ! 0);
          if b then shift es x (edges[Suc 0 := edges ! 0]) 0 else Some (edges[Suc 0 := x]) }"
  by simp





















end
